theory Spec2Isabelle
  imports Main
begin

text \<open>
  A shallow embedding of the scanner (\<^verbatim>\<open>class Tokenizer\<close>) and the syntax builder
  (\<^verbatim>\<open>class BashParser\<close>) of bash-parser-ast, with the properties that its specification
  claims of them.

  \<^item> The fields of an object are arguments and results: a scanning method takes the
    \<open>Tokenizer\<close> record and returns the new one; a method of the builder takes the token
    array and the cursor and returns the new cursor.
  \<^item> A method that can throw returns a sum, with the thrown value on the left.
  \<^item> A \<^verbatim>\<open>while\<close> loop is a recursive function of its own, defined by well-founded
    recursion on the characters or tokens that are left; the mutually recursive methods
    of the builder are one such definition.
  \<^item> \<^verbatim>\<open>undefined\<close> and the empty string that \<^verbatim>\<open>current()\<close> returns beyond the input are
    \<open>None\<close>.
\<close>

section \<open>Data model (src/src/ast.ts)\<close>

text \<open>
  \<^verbatim>\<open>interface Position { start; end; line; column }\<close>. The field \<^verbatim>\<open>end\<close> is written
  \<open>end'\<close>, since \<^verbatim>\<open>end\<close> is a keyword here. Offsets, lines and columns are the natural
  numbers the scanner counts up from 0 and 1.
\<close>

record Position =
  start :: nat
  end' :: nat
  line :: nat
  column :: nat

text \<open>
  \<^verbatim>\<open>enum TokenType\<close>. The last constructor is not a member of the enum: it stands for
  the value that the lookup \<^verbatim>\<open>keywords[value]\<close> of \<^verbatim>\<open>getKeywordType\<close> returns when
  \<^verbatim>\<open>value\<close> names a property that the object literal inherits from
  \<^verbatim>\<open>Object.prototype\<close> (\<^verbatim>\<open>constructor\<close>, \<^verbatim>\<open>toString\<close>, ...). That value is truthy, so
  it becomes the token's type, and it is equal to no member of the enum.
\<close>

datatype TokenType =
    WORD | PIPE | REDIRECT_OUT | REDIRECT_IN | REDIRECT_APPEND | SEMICOLON
  | AMPERSAND | AND | OR | LPAREN | RPAREN | LBRACE | RBRACE
  | IF | THEN | ELSE | FI | FOR | WHILE | DO | DONE | FUNCTION
  | NEWLINE | EOF | VARIABLE | QUOTED_STRING | COMMENT
  | INHERITED_PROPERTY

record Token =
  tok_type :: TokenType
  tok_value :: string
  tok_position :: Position

section \<open>The scanner (class Tokenizer)\<close>

text \<open>
  The fields of the class. A JavaScript string is a sequence of 16-bit code units; it is
  modelled as a \<open>string\<close>, a list of 8-bit characters, which covers every ASCII input.
\<close>

record Tokenizer =
  input :: string
  position :: nat
  cur_line :: nat
  cur_column :: nat

definition newTokenizer :: "string \<Rightarrow> Tokenizer" where
  "newTokenizer s = \<lparr>input = s, position = 0, cur_line = 1, cur_column = 1\<rparr>"

text \<open>
  \<^verbatim>\<open>current()\<close> is \<^verbatim>\<open>this.input[this.position] || ''\<close>: the empty string beyond the end
  of the input, here \<open>None\<close>.
\<close>

definition current :: "Tokenizer \<Rightarrow> char option" where
  "current t = (if position t < length (input t) then Some (input t ! position t) else None)"

definition advance :: "Tokenizer \<Rightarrow> Tokenizer" where
  "advance t =
     (if current t = Some (CHR 0x0A)
      then t\<lparr>cur_line := cur_line t + 1, cur_column := 1, position := position t + 1\<rparr>
      else t\<lparr>cur_column := cur_column t + 1, position := position t + 1\<rparr>)"

definition getPosition :: "Tokenizer \<Rightarrow> Position" where
  "getPosition t =
     \<lparr>start = position t, end' = position t, line = cur_line t, column = cur_column t\<rparr>"

text \<open>
  \<^verbatim>\<open>createToken(type, value, start?)\<close>: \<^verbatim>\<open>start || this.getPosition()\<close>, with the end
  overwritten by the cursor. A position object is always truthy.
\<close>

definition createToken :: "Tokenizer \<Rightarrow> TokenType \<Rightarrow> string \<Rightarrow> Position option \<Rightarrow> Token" where
  "createToken t ty v start_opt =
     (let pos = (case start_opt of Some p \<Rightarrow> p | None \<Rightarrow> getPosition t)
      in \<lparr>tok_type = ty, tok_value = v, tok_position = pos\<lparr>end' := position t\<rparr>\<rparr>)"

text \<open>\<^verbatim>\<open>/[a-zA-Z0-9_.\/-]/.test(char)\<close>; the empty string does not match.\<close>

definition isWordChar :: "char option \<Rightarrow> bool" where
  "isWordChar c =
     (case c of None \<Rightarrow> False
      | Some ch \<Rightarrow> ch \<in> set (''abcdefghijklmnopqrstuvwxyz'' @ ''ABCDEFGHIJKLMNOPQRSTUVWXYZ''
                               @ ''0123456789'' @ ''_./-''))"

text \<open>\<^verbatim>\<open>/[ \t]/.test(char)\<close>.\<close>

definition isBlank :: "char option \<Rightarrow> bool" where
  "isBlank c = (c = Some CHR '' '' \<or> c = Some (CHR 0x09))"

text \<open>
  The property names that an object literal inherits from \<^verbatim>\<open>Object.prototype\<close>
  (ECMAScript, with its Annex B): for them \<^verbatim>\<open>keywords[value]\<close> is a function or an
  object, not \<^verbatim>\<open>undefined\<close>.
\<close>

definition objectPrototypeProperties :: "string list" where
  "objectPrototypeProperties =
     [''constructor'', ''hasOwnProperty'', ''isPrototypeOf'', ''propertyIsEnumerable'',
      ''toLocaleString'', ''toString'', ''valueOf'', ''__proto__'',
      ''__defineGetter__'', ''__defineSetter__'', ''__lookupGetter__'', ''__lookupSetter__'']"

text \<open>\<^verbatim>\<open>getKeywordType(value)\<close>: \<^verbatim>\<open>keywords[value] || null\<close>.\<close>

definition getKeywordType :: "string \<Rightarrow> TokenType option" where
  "getKeywordType v =
     (if v = ''if'' then Some IF
      else if v = ''then'' then Some THEN
      else if v = ''else'' then Some ELSE
      else if v = ''fi'' then Some FI
      else if v = ''for'' then Some FOR
      else if v = ''while'' then Some WHILE
      else if v = ''do'' then Some DO
      else if v = ''done'' then Some DONE
      else if v = ''function'' then Some FUNCTION
      else if v \<in> set objectPrototypeProperties then Some INHERITED_PROPERTY
      else None)"

text \<open>The \<^verbatim>\<open>while\<close> loop of \<^verbatim>\<open>skipWhitespace\<close>.\<close>

function skipWhitespace :: "Tokenizer \<Rightarrow> Tokenizer" where
  "skipWhitespace t =
     (if position t < length (input t) \<and> isBlank (current t)
      then skipWhitespace (advance t) else t)"
  by pat_completeness auto
termination
  by (relation "measure (\<lambda>t. length (input t) - position t)") (auto simp: advance_def)

text \<open>
  The loops of the \<^verbatim>\<open>read...\<close> methods take the text accumulated so far (the local
  \<^verbatim>\<open>value\<close>) and return it with the scanner.
\<close>

function readCommentLoop :: "Tokenizer \<Rightarrow> string \<Rightarrow> string \<times> Tokenizer" where
  "readCommentLoop t v =
     (if position t < length (input t) \<and> current t \<noteq> Some (CHR 0x0A)
      then readCommentLoop (advance t) (v @ [input t ! position t])
      else (v, t))"
  by pat_completeness auto
termination
  by (relation "measure (\<lambda>(t, v). length (input t) - position t)") (auto simp: advance_def)

definition readComment :: "Tokenizer \<Rightarrow> Token \<times> Tokenizer" where
  "readComment t =
     (let start = getPosition t;
          (v, t') = readCommentLoop (advance t) []
      in (createToken t' COMMENT v (Some start), t'))"

function readQuotedLoop :: "char \<Rightarrow> Tokenizer \<Rightarrow> string \<Rightarrow> string \<times> Tokenizer" where
  "readQuotedLoop quote t v =
     (if position t < length (input t) \<and> current t \<noteq> Some quote
      then (if current t = Some (CHR 0x5C)
            then (let t1 = advance t
                  in if position t1 < length (input t1)
                     then readQuotedLoop quote (advance t1) (v @ [input t1 ! position t1])
                     else readQuotedLoop quote t1 v)
            else readQuotedLoop quote (advance t) (v @ [input t ! position t]))
      else (v, t))"
  by pat_completeness auto
termination
  by (relation "measure (\<lambda>(q, t, v). length (input t) - position t)")
     (auto simp: advance_def Let_def)

definition readQuotedString :: "char \<Rightarrow> Tokenizer \<Rightarrow> Token \<times> Tokenizer" where
  "readQuotedString quote t =
     (let start = getPosition t;
          (v, t1) = readQuotedLoop quote (advance t) [];
          t2 = (if current t1 = Some quote then advance t1 else t1)
      in (createToken t2 QUOTED_STRING v (Some start), t2))"

function readBracedLoop :: "Tokenizer \<Rightarrow> string \<Rightarrow> string \<times> Tokenizer" where
  "readBracedLoop t v =
     (if position t < length (input t) \<and> current t \<noteq> Some CHR ''}''
      then readBracedLoop (advance t) (v @ [input t ! position t])
      else (v, t))"
  by pat_completeness auto
termination
  by (relation "measure (\<lambda>(t, v). length (input t) - position t)") (auto simp: advance_def)

text \<open>
  The loop \<^verbatim>\<open>while (position < length && isWordChar(current())) { value += current(); advance() }\<close>
  occurs in \<^verbatim>\<open>readVariable\<close> and in \<^verbatim>\<open>readWord\<close>.
\<close>

function readWordLoop :: "Tokenizer \<Rightarrow> string \<Rightarrow> string \<times> Tokenizer" where
  "readWordLoop t v =
     (if position t < length (input t) \<and> isWordChar (current t)
      then readWordLoop (advance t) (v @ [input t ! position t])
      else (v, t))"
  by pat_completeness auto
termination
  by (relation "measure (\<lambda>(t, v). length (input t) - position t)") (auto simp: advance_def)

definition readVariable :: "Tokenizer \<Rightarrow> Token \<times> Tokenizer" where
  "readVariable t =
     (let start = getPosition t;
          t1 = advance t;
          (v, t2) =
            (if current t1 = Some CHR ''{''
             then (let (v, t') = readBracedLoop (advance t1) []
                   in (v, if current t' = Some CHR ''}'' then advance t' else t'))
             else readWordLoop t1 [])
      in (createToken t2 VARIABLE v (Some start), t2))"

text \<open>
  \<^verbatim>\<open>readWord\<close>. In the fallback branch \<^verbatim>\<open>value = this.current()\<close> is the one character
  under the cursor (the empty string beyond the end of the input).
\<close>

definition readWord :: "Tokenizer \<Rightarrow> Token \<times> Tokenizer" where
  "readWord t =
     (let start = getPosition t
      in if \<not> isWordChar (current t)
         then (let v = (case current t of None \<Rightarrow> [] | Some c \<Rightarrow> [c]);
                   t1 = advance t
               in (createToken t1 WORD v (Some start), t1))
         else (let (v, t1) = readWordLoop t [];
                   tokenType = (case getKeywordType v of Some k \<Rightarrow> k | None \<Rightarrow> WORD)
               in (createToken t1 tokenType v (Some start), t1)))"

text \<open>
  One- and two-character operators: \<^verbatim>\<open>advance()\<close>, then the second character decides.
\<close>

definition readOperator ::
    "Tokenizer \<Rightarrow> Position \<Rightarrow> char \<Rightarrow> TokenType \<Rightarrow> TokenType \<Rightarrow> Token \<times> Tokenizer" where
  "readOperator t startPos c double single =
     (let t1 = advance t
      in if current t1 = Some c
         then (let t2 = advance t1 in (createToken t2 double [c, c] (Some startPos), t2))
         else (createToken t1 single [c] (Some startPos), t1))"

definition readSingle ::
    "Tokenizer \<Rightarrow> Position \<Rightarrow> char \<Rightarrow> TokenType \<Rightarrow> Token \<times> Tokenizer" where
  "readSingle t startPos c ty = (let t1 = advance t in (createToken t1 ty [c] (Some startPos), t1))"

definition nextToken :: "Tokenizer \<Rightarrow> Token option \<times> Tokenizer" where
  "nextToken t0 =
     (let t = skipWhitespace t0
      in if position t \<ge> length (input t) then (None, t)
         else (let char = input t ! position t;
                   startPos = getPosition t;
                   (token, t') =
                 (if char = CHR ''#'' then readComment t
                  else if char = CHR 0x0A then readSingle t startPos (CHR 0x0A) NEWLINE
                  else if char = CHR ''|'' then readOperator t startPos CHR ''|'' OR PIPE
                  else if char = CHR ''&'' then readOperator t startPos CHR ''&'' AND AMPERSAND
                  else if char = CHR ''>'' then
                    readOperator t startPos CHR ''>'' REDIRECT_APPEND REDIRECT_OUT
                  else if char = CHR ''<'' then readSingle t startPos CHR ''<'' REDIRECT_IN
                  else if char = CHR '';'' then readSingle t startPos CHR '';'' SEMICOLON
                  else if char = CHR ''('' then readSingle t startPos CHR ''('' LPAREN
                  else if char = CHR '')'' then readSingle t startPos CHR '')'' RPAREN
                  else if char = CHR ''{'' then readSingle t startPos CHR ''{'' LBRACE
                  else if char = CHR ''}'' then readSingle t startPos CHR ''}'' RBRACE
                  else if char = CHR 0x22 \<or> char = CHR 0x27 then readQuotedString char t
                  else if char = CHR ''$'' then readVariable t
                  else readWord t)
               in (Some token, t')))"

subsection \<open>Every scanning step moves the cursor forward\<close>

declare skipWhitespace.simps [simp del] readCommentLoop.simps [simp del]
  readQuotedLoop.simps [simp del] readBracedLoop.simps [simp del] readWordLoop.simps [simp del]

lemma input_advance [simp]: "input (advance t) = input t"
  by (simp add: advance_def)

lemma position_advance [simp]: "position (advance t) = position t + 1"
  by (simp add: advance_def)

lemma skipWhitespace_input [simp]: "input (skipWhitespace t) = input t"
  by (induction t rule: skipWhitespace.induct) (subst skipWhitespace.simps, simp)

lemma skipWhitespace_position: "position t \<le> position (skipWhitespace t)"
proof (induction t rule: skipWhitespace.induct)
  case (1 t)
  show ?case
  proof (cases "position t < length (input t) \<and> isBlank (current t)")
    case True
    with 1 have "position (advance t) \<le> position (skipWhitespace (advance t))" by simp
    with True show ?thesis by (subst skipWhitespace.simps) simp
  next
    case False
    then show ?thesis by (subst skipWhitespace.simps) auto
  qed
qed

lemma readCommentLoop_mono:
  "readCommentLoop t v = (v', t') \<Longrightarrow> input t' = input t \<and> position t \<le> position t'"
proof (induction t v rule: readCommentLoop.induct)
  case (1 t v)
  show ?case
  proof (cases "position t < length (input t) \<and> current t \<noteq> Some (CHR 0x0A)")
    case True
    with "1.prems" have "readCommentLoop (advance t) (v @ [input t ! position t]) = (v', t')"
      by (subst (asm) readCommentLoop.simps) simp
    with "1.IH" True show ?thesis by fastforce
  next
    case False
    with "1.prems" show ?thesis by (subst (asm) readCommentLoop.simps) simp
  qed
qed

lemma readBracedLoop_mono:
  "readBracedLoop t v = (v', t') \<Longrightarrow> input t' = input t \<and> position t \<le> position t'"
proof (induction t v rule: readBracedLoop.induct)
  case (1 t v)
  show ?case
  proof (cases "position t < length (input t) \<and> current t \<noteq> Some CHR ''}''")
    case True
    with "1.prems" have "readBracedLoop (advance t) (v @ [input t ! position t]) = (v', t')"
      by (subst (asm) readBracedLoop.simps) simp
    with "1.IH" True show ?thesis by fastforce
  next
    case False
    with "1.prems" show ?thesis by (subst (asm) readBracedLoop.simps) simp
  qed
qed

lemma readWordLoop_mono:
  "readWordLoop t v = (v', t') \<Longrightarrow> input t' = input t \<and> position t \<le> position t'"
proof (induction t v rule: readWordLoop.induct)
  case (1 t v)
  show ?case
  proof (cases "position t < length (input t) \<and> isWordChar (current t)")
    case True
    with "1.prems" have "readWordLoop (advance t) (v @ [input t ! position t]) = (v', t')"
      by (subst (asm) readWordLoop.simps) simp
    with "1.IH" True show ?thesis by fastforce
  next
    case False
    with "1.prems" show ?thesis by (subst (asm) readWordLoop.simps) simp
  qed
qed

lemma readQuotedLoop_mono:
  "readQuotedLoop q t v = (v', t') \<Longrightarrow> input t' = input t \<and> position t \<le> position t'"
proof (induction q t v rule: readQuotedLoop.induct)
  case (1 q t v)
  show ?case
  proof (cases "position t < length (input t) \<and> current t \<noteq> Some q")
    case False
    with "1.prems" show ?thesis by (subst (asm) readQuotedLoop.simps) simp
  next
    case True
    note run = this
    show ?thesis
    proof (cases "current t = Some (CHR 0x5C)")
      case False
      with run "1.prems" have "readQuotedLoop q (advance t) (v @ [input t ! position t]) = (v', t')"
        by (subst (asm) readQuotedLoop.simps) simp
      with "1.IH"(3) run False show ?thesis by fastforce
    next
      case True
      note esc = this
      show ?thesis
      proof (cases "position (advance t) < length (input (advance t))")
        case True
        with run esc "1.prems"
        have "readQuotedLoop q (advance (advance t)) (v @ [input (advance t) ! position (advance t)]) = (v', t')"
          by (subst (asm) readQuotedLoop.simps) (simp add: Let_def)
        with "1.IH"(1)[OF run esc refl True] show ?thesis by fastforce
      next
        case False
        with run esc "1.prems" have "readQuotedLoop q (advance t) v = (v', t')"
          by (subst (asm) readQuotedLoop.simps) (simp add: Let_def)
        with "1.IH"(2)[OF run esc refl False] show ?thesis by fastforce
      qed
    qed
  qed
qed

lemma readWordLoop_step:
  "position t < length (input t) \<Longrightarrow> isWordChar (current t) \<Longrightarrow>
     readWordLoop t v = readWordLoop (advance t) (v @ [input t ! position t])"
  by (subst readWordLoop.simps) simp

lemma readWordLoop_stop:
  "\<not> (position t < length (input t) \<and> isWordChar (current t)) \<Longrightarrow> readWordLoop t v = (v, t)"
  by (subst readWordLoop.simps) auto

lemma readComment_mono:
  "readComment t = (tok, t') \<Longrightarrow> input t' = input t \<and> position t < position t'"
  by (auto simp: readComment_def Let_def split: prod.splits dest!: readCommentLoop_mono)

lemma readQuotedString_mono:
  "readQuotedString q t = (tok, t') \<Longrightarrow> input t' = input t \<and> position t < position t'"
  by (auto simp: readQuotedString_def Let_def split: prod.splits if_splits dest!: readQuotedLoop_mono)

lemma readVariable_mono:
  "readVariable t = (tok, t') \<Longrightarrow> input t' = input t \<and> position t < position t'"
  by (auto simp: readVariable_def Let_def split: prod.splits if_splits
           dest!: readBracedLoop_mono readWordLoop_mono)

lemma readWord_mono:
  "readWord t = (tok, t') \<Longrightarrow> position t < length (input t) \<Longrightarrow>
     input t' = input t \<and> position t < position t'"
  by (auto simp: readWord_def Let_def readWordLoop_step split: prod.splits if_splits
           dest!: readWordLoop_mono)

lemma readOperator_mono:
  "readOperator t sp c d s = (tok, t') \<Longrightarrow> input t' = input t \<and> position t < position t'"
  by (auto simp: readOperator_def Let_def split: if_splits)

lemma readSingle_mono:
  "readSingle t sp c ty = (tok, t') \<Longrightarrow> input t' = input t \<and> position t < position t'"
  by (auto simp: readSingle_def Let_def)

lemmas read_mono = readComment_mono readQuotedString_mono readVariable_mono readWord_mono
  readOperator_mono readSingle_mono

lemma nextToken_input: "nextToken t = (r, t') \<Longrightarrow> input t' = input t"
  unfolding nextToken_def Let_def
  by (auto split: if_splits prod.splits dest: read_mono)

lemma nextToken_progress:
  assumes "nextToken t = (r, t')" and "position t < length (input t)"
  shows "position t < position t'"
proof -
  let ?s = "skipWhitespace t"
  have le: "position t \<le> position ?s" by (rule skipWhitespace_position)
  show ?thesis
  proof (cases "length (input ?s) \<le> position ?s")
    case True
    with assms show ?thesis by (auto simp: nextToken_def Let_def)
  next
    case False
    then have "position ?s < length (input ?s)" by simp
    with assms(1) False have "position ?s < position t'"
      unfolding nextToken_def Let_def
      by (auto split: if_splits prod.splits dest: read_mono)
    with le show ?thesis by simp
  qed
qed

text \<open>
  The loop of \<^verbatim>\<open>tokenize()\<close>; \<open>tokens\<close> is the array built so far. It terminates
  because \<open>nextToken\<close> moves the cursor forward whenever input is left.
\<close>

function tokenizeLoop :: "Tokenizer \<Rightarrow> Token list \<Rightarrow> Token list" where
  "tokenizeLoop t tokens =
     (if position t < length (input t)
      then (case nextToken t of
              (Some token, t') \<Rightarrow> tokenizeLoop t' (tokens @ [token])
            | (None, t') \<Rightarrow> tokenizeLoop t' tokens)
      else tokens @ [createToken t EOF [] None])"
  by pat_completeness auto
termination
proof (relation "measure (\<lambda>(t, tokens). length (input t) - position t)")
  show "wf (measure (\<lambda>(t, tokens). length (input t) - position t))" by simp
next
  fix t :: Tokenizer and tokens :: "Token list" and x t' and token :: Token
  assume run: "position t < length (input t)" and x: "(x, t') = nextToken t"
  from x have nt: "nextToken t = (x, t')" by simp
  have "input t' = input t" using nextToken_input[OF nt] .
  moreover have "position t < position t'" using nextToken_progress[OF nt run] .
  ultimately have m: "length (input t') - position t' < length (input t) - position t"
    using run by simp
  { assume "x = Some token"
    from m show "((t', tokens @ [token]), (t, tokens)) \<in> measure (\<lambda>(t, tokens). length (input t) - position t)"
      by simp }
  { assume "x = None"
    from m show "((t', tokens), (t, tokens)) \<in> measure (\<lambda>(t, tokens). length (input t) - position t)"
      by simp }
qed

definition tokenize :: "string \<Rightarrow> Token list" where
  "tokenize s = tokenizeLoop (newTokenizer s) []"

declare tokenizeLoop.simps [simp del]

section \<open>Syntax tree (src/src/ast.ts)\<close>

text \<open>
  The node interfaces that the builder constructs. Every node has the optional
  \<^verbatim>\<open>position\<close> of \<^verbatim>\<open>ASTNode\<close>, the last argument of each constructor. A \<^verbatim>\<open>Literal\<close> is
  \<open>Literal value quoted position\<close>, a \<^verbatim>\<open>Variable\<close> is \<open>Variable name position\<close>. The
  builder never sets \<^verbatim>\<open>Command.redirections\<close> or \<^verbatim>\<open>VariableAssignment.export\<close> and never
  builds a \<^verbatim>\<open>CommandSubstitution\<close>, a \<^verbatim>\<open>Redirection\<close> or a \<^verbatim>\<open>Comment\<close> node; they are left out.
\<close>

datatype Expression =
    Literal string bool "Position option"
  | Variable string "Position option"

text \<open>\<open>Command name args position\<close>.\<close>

datatype Command = Command string "string list" "Position option"

text \<open>
  A \<^verbatim>\<open>Command\<close> that is a statement of its own is \<open>CommandStmt\<close>; the others are
  \<open>Pipeline commands position\<close>, \<open>Conditional condition then else position\<close>,
  \<open>Loop kind condition variable iterable body position\<close>,
  \<open>FunctionDeclaration name body position\<close> and \<open>VariableAssignment name value position\<close>.
  \<^verbatim>\<open>Loop.kind\<close> is the string that \<^verbatim>\<open>parseLoop\<close> stores (the text of a token, cast to the
  union type without a check).
\<close>

datatype Statement =
    CommandStmt Command
  | Pipeline "Command list" "Position option"
  | Conditional Expression "Statement list" "Statement list option" "Position option"
  | Loop string "Expression option" "string option" "Expression option" "Statement list"
      "Position option"
  | FunctionDeclaration string "Statement list" "Position option"
  | VariableAssignment string Expression "Position option"

text \<open>\<open>Program body position\<close>.\<close>

datatype Program = Program "Statement list" "Position option"

section \<open>The syntax builder (class BashParser)\<close>

text \<open>
  \<^verbatim>\<open>class ParseError\<close>: \<open>ParseError message position\<close>. What a method of the builder can
  throw is a \<^verbatim>\<open>ParseError\<close>, or the \<^verbatim>\<open>TypeError\<close> of JavaScript for reading a property of
  \<^verbatim>\<open>undefined\<close> (when \<^verbatim>\<open>advance()\<close> returns \<^verbatim>\<open>this.tokens[-1]\<close>); the latter carries the
  cursor at the throw, which the handler in \<^verbatim>\<open>parse\<close> reads.
\<close>

datatype ParseError = ParseError string "Position option"

datatype Thrown = ThrownParseError ParseError | ThrownTypeError nat

text \<open>The text \<open>s\<close> between two apostrophes, for the messages \<^verbatim>\<open>"Expected 'then'"\<close>.\<close>

definition quoted :: "string \<Rightarrow> string" where
  "quoted s = [CHR 0x27] @ s @ [CHR 0x27]"

text \<open>
  The builder's fields are the token array \<open>ts\<close>, assigned once in \<^verbatim>\<open>parse\<close> and never
  changed, and the cursor \<open>pos\<close> (\<^verbatim>\<open>this.position\<close>), which every method takes and
  returns. \<^verbatim>\<open>this.tokens[i]\<close> is \<^verbatim>\<open>undefined\<close> outside the array, here \<open>None\<close>.
\<close>

definition currentToken :: "Token list \<Rightarrow> nat \<Rightarrow> Token option" where
  "currentToken ts pos = (if pos < length ts then Some (ts ! pos) else None)"

definition check :: "Token list \<Rightarrow> nat \<Rightarrow> TokenType \<Rightarrow> bool" where
  "check ts pos ty = (case currentToken ts pos of Some token \<Rightarrow> tok_type token = ty | None \<Rightarrow> False)"

definition isAtEnd :: "Token list \<Rightarrow> nat \<Rightarrow> bool" where
  "isAtEnd ts pos = (pos \<ge> length ts \<or> check ts pos EOF)"

text \<open>
  \<^verbatim>\<open>BashParser.advance()\<close> (named \<open>advanceP\<close>; \<open>advance\<close> is the scanner's): the token
  returned is \<^verbatim>\<open>this.tokens[this.position - 1]\<close>, and the new cursor.
\<close>

definition advanceP :: "Token list \<Rightarrow> nat \<Rightarrow> Token option \<times> nat" where
  "advanceP ts pos =
     (let pos' = (if \<not> isAtEnd ts pos then pos + 1 else pos)
      in (if pos' = 0 then None else currentToken ts (pos' - 1), pos'))"

text \<open>\<^verbatim>\<open>throw new ParseError(message, this.currentToken()?.position)\<close>.\<close>

definition throwParseError :: "Token list \<Rightarrow> nat \<Rightarrow> string \<Rightarrow> Thrown" where
  "throwParseError ts pos msg =
     ThrownParseError (ParseError msg (map_option tok_position (currentToken ts pos)))"

definition consume ::
    "Token list \<Rightarrow> nat \<Rightarrow> TokenType \<Rightarrow> string \<Rightarrow> Thrown + (Token option \<times> nat)" where
  "consume ts pos ty msg =
     (if check ts pos ty then Inr (advanceP ts pos) else Inl (throwParseError ts pos msg))"

text \<open>
  \<^verbatim>\<open>getNodePosition(start?)\<close>; \<^verbatim>\<open>current?.end || start.end\<close> takes \<^verbatim>\<open>start.end\<close> when there
  is no current token and also when its end is 0.
\<close>

definition getNodePosition :: "Token list \<Rightarrow> nat \<Rightarrow> Position option \<Rightarrow> Position option" where
  "getNodePosition ts pos start_opt =
     (case start_opt of
        None \<Rightarrow> None
      | Some st \<Rightarrow>
          Some \<lparr>start = start st,
                end' = (case currentToken ts pos of
                          None \<Rightarrow> end' st
                        | Some cur \<Rightarrow>
                            if end' (tok_position cur) = 0 then end' st
                            else end' (tok_position cur)),
                line = line st, column = column st\<rparr>)"

definition parseExpression :: "Token list \<Rightarrow> nat \<Rightarrow> Thrown + (Expression \<times> nat)" where
  "parseExpression ts pos =
     (if check ts pos WORD \<or> check ts pos QUOTED_STRING
      then (case advanceP ts pos of
              (None, p) \<Rightarrow> Inl (ThrownTypeError p)
            | (Some token, p) \<Rightarrow>
                Inr (Literal (tok_value token) (tok_type token = QUOTED_STRING)
                       (Some (tok_position token)), p))
      else if check ts pos VARIABLE
      then (case advanceP ts pos of
              (None, p) \<Rightarrow> Inl (ThrownTypeError p)
            | (Some token, p) \<Rightarrow> Inr (Variable (tok_value token) (Some (tok_position token)), p))
      else Inl (throwParseError ts pos ''Expected expression''))"

subsection \<open>Facts about the cursor\<close>

lemma check_lt: "check ts pos ty \<Longrightarrow> pos < length ts"
  by (auto simp: check_def currentToken_def split: if_splits)

lemma advanceP_ge: "pos \<le> snd (advanceP ts pos)"
  by (simp add: advanceP_def Let_def)

lemma advanceP_not_end: "\<not> isAtEnd ts pos \<Longrightarrow> advanceP ts pos = (Some (ts ! pos), pos + 1)"
  by (simp add: advanceP_def Let_def isAtEnd_def currentToken_def)

lemma check_measure: "check ts pos ty \<Longrightarrow> length ts - Suc pos < length ts - pos"
  by (drule check_lt) simp

lemma check_not_end: "check ts pos ty \<Longrightarrow> ty \<noteq> EOF \<Longrightarrow> \<not> isAtEnd ts pos"
  by (auto simp: isAtEnd_def check_def currentToken_def split: if_splits)

text \<open>The argument loop of \<^verbatim>\<open>parseCommand\<close>.\<close>

function parseArgs :: "Token list \<Rightarrow> nat \<Rightarrow> string list \<Rightarrow> Thrown + (string list \<times> nat)" where
  "parseArgs ts pos args =
     (if check ts pos WORD \<or> check ts pos QUOTED_STRING
      then (case advanceP ts pos of
              (None, p) \<Rightarrow> Inl (ThrownTypeError p)
            | (Some token, p) \<Rightarrow> parseArgs ts p (args @ [tok_value token]))
      else Inr (args, pos))"
  by pat_completeness auto
termination
  by (relation "measure (\<lambda>(ts, pos, args). length ts - pos)")
     (auto simp: advanceP_not_end check_not_end check_measure)

declare parseArgs.simps [simp del]

definition parseCommand :: "Token list \<Rightarrow> nat \<Rightarrow> Thrown + (Command \<times> nat)" where
  "parseCommand ts pos =
     (let start = map_option tok_position (currentToken ts pos)
      in if \<not> check ts pos WORD then Inl (throwParseError ts pos ''Expected command name'')
         else (case advanceP ts pos of
                 (None, p) \<Rightarrow> Inl (ThrownTypeError p)
               | (Some token, p1) \<Rightarrow>
                   (case parseArgs ts p1 [] of
                      Inl e \<Rightarrow> Inl e
                    | Inr (args, p2) \<Rightarrow>
                        Inr (Command (tok_value token) args (getNodePosition ts p2 start), p2))))"

lemma parseArgs_ge: "parseArgs ts pos args = Inr (args', p) \<Longrightarrow> pos \<le> p"
proof (induction ts pos args rule: parseArgs.induct)
  case (1 ts pos args)
  show ?case
  proof (cases "check ts pos WORD \<or> check ts pos QUOTED_STRING")
    case True
    then have ne: "\<not> isAtEnd ts pos" by (auto simp: check_not_end)
    with True "1.prems" have "parseArgs ts (pos + 1) (args @ [tok_value (ts ! pos)]) = Inr (args', p)"
      by (subst (asm) parseArgs.simps) (simp add: advanceP_not_end)
    with "1.IH" True ne have "pos + 1 \<le> p" by (auto simp: advanceP_not_end)
    then show ?thesis by simp
  next
    case False
    with "1.prems" show ?thesis by (subst (asm) parseArgs.simps) simp
  qed
qed

lemma parseCommand_gt: "parseCommand ts pos = Inr (c, p) \<Longrightarrow> pos < p"
  by (auto simp: parseCommand_def Let_def advanceP_not_end check_not_end
           split: if_splits sum.splits prod.splits option.splits dest!: parseArgs_ge)

text \<open>The \<^verbatim>\<open>while (this.check(TokenType.PIPE))\<close> loop of \<^verbatim>\<open>parsePipeline\<close>.\<close>

function parsePipelineLoop ::
    "Token list \<Rightarrow> nat \<Rightarrow> Command list \<Rightarrow> Thrown + (Command list \<times> nat)" where
  "parsePipelineLoop ts pos commands =
     (if check ts pos PIPE
      then (case parseCommand ts (snd (advanceP ts pos)) of
              Inl e \<Rightarrow> Inl e
            | Inr (c, p) \<Rightarrow> parsePipelineLoop ts p (commands @ [c]))
      else Inr (commands, pos))"
  by pat_completeness auto
termination
  by (relation "measure (\<lambda>(ts, pos, commands). length ts - pos)")
     (auto simp: advanceP_not_end check_not_end dest!: check_lt parseCommand_gt)

declare parsePipelineLoop.simps [simp del]

definition parsePipeline :: "Token list \<Rightarrow> nat \<Rightarrow> Thrown + (Statement \<times> nat)" where
  "parsePipeline ts pos =
     (case parseCommand ts pos of
        Inl e \<Rightarrow> Inl e
      | Inr (c, p1) \<Rightarrow>
          (case parsePipelineLoop ts p1 [c] of
             Inl e \<Rightarrow> Inl e
           | Inr (commands, p2) \<Rightarrow>
               if length commands = 1 then Inr (CommandStmt (commands ! 0), p2)
               else Inr (Pipeline commands (getNodePosition ts p2 None), p2)))"

definition isVariableAssignment :: "Token list \<Rightarrow> nat \<Rightarrow> bool" where
  "isVariableAssignment ts pos =
     (if check ts pos WORD \<and> pos + 1 < length ts
      then tok_value (ts ! (pos + 1)) = ''=''
      else False)"

definition parseVariableAssignment :: "Token list \<Rightarrow> nat \<Rightarrow> Thrown + (Statement \<times> nat)" where
  "parseVariableAssignment ts pos =
     (let start = map_option tok_position (currentToken ts pos)
      in case advanceP ts pos of
           (None, p) \<Rightarrow> Inl (ThrownTypeError p)
         | (Some token, p1) \<Rightarrow>
             (case consume ts p1 WORD (''Expected '' @ quoted ''='') of
                Inl e \<Rightarrow> Inl e
              | Inr (_, p2) \<Rightarrow>
                  (case parseExpression ts p2 of
                     Inl e \<Rightarrow> Inl e
                   | Inr (v, p3) \<Rightarrow>
                       Inr (VariableAssignment (tok_value token) v
                              (getNodePosition ts p3 start), p3))))"


text \<open>
  The \<^verbatim>\<open>if (kind === 'for') ... else ...\<close> of \<^verbatim>\<open>parseLoop\<close>; it returns
  \<open>(variable, iterable, condition)\<close>.
\<close>

definition parseLoopHeader ::
    "Token list \<Rightarrow> nat \<Rightarrow> string \<Rightarrow>
     Thrown + ((string option \<times> Expression option \<times> Expression option) \<times> nat)" where
  "parseLoopHeader ts pos kind =
     (if kind = ''for''
      then (case consume ts pos WORD ''Expected variable name'' of
              Inl e \<Rightarrow> Inl e
            | Inr (None, p) \<Rightarrow> Inl (ThrownTypeError p)
            | Inr (Some v, p1) \<Rightarrow>
                (case consume ts p1 WORD (''Expected '' @ quoted ''in'') of
                   Inl e \<Rightarrow> Inl e
                 | Inr (_, p2) \<Rightarrow>
                     (case parseExpression ts p2 of
                        Inl e \<Rightarrow> Inl e
                      | Inr (iterable, p3) \<Rightarrow>
                          Inr ((Some (tok_value v), Some iterable, None), p3))))
      else (case parseExpression ts pos of
              Inl e \<Rightarrow> Inl e
            | Inr (condition, p1) \<Rightarrow> Inr ((None, None, Some condition), p1)))"

text \<open>
  \<^verbatim>\<open>parseStatement\<close>, \<^verbatim>\<open>parseConditional\<close>, \<^verbatim>\<open>parseLoop\<close> and \<^verbatim>\<open>parseFunction\<close> call each
  other. The four body loops of the last three are the same loop up to the token types
  that stop it (\<^verbatim>\<open>while (!this.check(A) && !this.check(B) && !this.isAtEnd())\<close>); they are
  \<open>parseBody stops\<close>, with the statements collected so far as last argument.
\<close>

function parseStatement :: "Token list \<Rightarrow> nat \<Rightarrow> Thrown + (Statement option \<times> nat)"
  and parseConditional :: "Token list \<Rightarrow> nat \<Rightarrow> Thrown + (Statement \<times> nat)"
  and parseLoop :: "Token list \<Rightarrow> nat \<Rightarrow> Thrown + (Statement \<times> nat)"
  and parseFunction :: "Token list \<Rightarrow> nat \<Rightarrow> Thrown + (Statement \<times> nat)"
  and parseBody ::
    "TokenType list \<Rightarrow> Token list \<Rightarrow> nat \<Rightarrow> Statement list \<Rightarrow> Thrown + (Statement list \<times> nat)"
where
  "parseStatement ts pos =
     (if check ts pos COMMENT then Inr (None, snd (advanceP ts pos))
      else if check ts pos EOF then Inr (None, pos)
      else if check ts pos IF then
        (case parseConditional ts pos of Inl e \<Rightarrow> Inl e | Inr (s, p) \<Rightarrow> Inr (Some s, p))
      else if check ts pos FOR \<or> check ts pos WHILE then
        (case parseLoop ts pos of Inl e \<Rightarrow> Inl e | Inr (s, p) \<Rightarrow> Inr (Some s, p))
      else if check ts pos FUNCTION then
        (case parseFunction ts pos of Inl e \<Rightarrow> Inl e | Inr (s, p) \<Rightarrow> Inr (Some s, p))
      else if isVariableAssignment ts pos then
        (case parseVariableAssignment ts pos of Inl e \<Rightarrow> Inl e | Inr (s, p) \<Rightarrow> Inr (Some s, p))
      else if check ts pos WORD then
        (case parsePipeline ts pos of Inl e \<Rightarrow> Inl e | Inr (s, p) \<Rightarrow> Inr (Some s, p))
      else Inr (None, pos))"
| "parseConditional ts pos =
     (let start = map_option tok_position (currentToken ts pos)
      in case consume ts pos IF (''Expected '' @ quoted ''if'') of
           Inl e \<Rightarrow> Inl e
         | Inr (_, p1) \<Rightarrow>
         (case parseExpression ts p1 of
           Inl e \<Rightarrow> Inl e
         | Inr (condition, p2) \<Rightarrow>
         (case consume ts p2 THEN (''Expected '' @ quoted ''then'') of
           Inl e \<Rightarrow> Inl e
         | Inr (_, p3) \<Rightarrow>
         (case parseBody [ELSE, FI] ts p3 [] of
           Inl e \<Rightarrow> Inl e
         | Inr (thenBody, p4) \<Rightarrow>
         (case (if check ts p4 ELSE
                then (case parseBody [FI] ts (snd (advanceP ts p4)) [] of
                        Inl e \<Rightarrow> Inl e
                      | Inr (b, p) \<Rightarrow> Inr (Some b, p))
                else Inr (None, p4)) of
           Inl e \<Rightarrow> Inl e
         | Inr (elseBody, p5) \<Rightarrow>
         (case consume ts p5 FI (''Expected '' @ quoted ''fi'') of
           Inl e \<Rightarrow> Inl e
         | Inr (_, p6) \<Rightarrow>
             Inr (Conditional condition thenBody elseBody (getNodePosition ts p6 start), p6)))))))"
| "parseLoop ts pos =
     (let start = map_option tok_position (currentToken ts pos)
      in case advanceP ts pos of
           (None, p) \<Rightarrow> Inl (ThrownTypeError p)
         | (Some token, p1) \<Rightarrow>
         (case parseLoopHeader ts p1 (tok_value token) of
           Inl e \<Rightarrow> Inl e
         | Inr ((variable, iterable, condition), p2) \<Rightarrow>
         (case consume ts p2 DO (''Expected '' @ quoted ''do'') of
           Inl e \<Rightarrow> Inl e
         | Inr (_, p3) \<Rightarrow>
         (case parseBody [DONE] ts p3 [] of
           Inl e \<Rightarrow> Inl e
         | Inr (body, p4) \<Rightarrow>
         (case consume ts p4 DONE (''Expected '' @ quoted ''done'') of
           Inl e \<Rightarrow> Inl e
         | Inr (_, p5) \<Rightarrow>
             Inr (Loop (tok_value token) condition variable iterable body
                    (getNodePosition ts p5 start), p5))))))"
| "parseFunction ts pos =
     (let start = map_option tok_position (currentToken ts pos)
      in case consume ts pos FUNCTION (''Expected '' @ quoted ''function'') of
           Inl e \<Rightarrow> Inl e
         | Inr (_, p1) \<Rightarrow>
         (case consume ts p1 WORD ''Expected function name'' of
           Inl e \<Rightarrow> Inl e
         | Inr (None, p) \<Rightarrow> Inl (ThrownTypeError p)
         | Inr (Some name, p2) \<Rightarrow>
         (case consume ts p2 LPAREN (''Expected '' @ quoted ''('') of
           Inl e \<Rightarrow> Inl e
         | Inr (_, p3) \<Rightarrow>
         (case consume ts p3 RPAREN (''Expected '' @ quoted '')'') of
           Inl e \<Rightarrow> Inl e
         | Inr (_, p4) \<Rightarrow>
         (case consume ts p4 LBRACE (''Expected '' @ quoted ''{'') of
           Inl e \<Rightarrow> Inl e
         | Inr (_, p5) \<Rightarrow>
         (case parseBody [RBRACE] ts p5 [] of
           Inl e \<Rightarrow> Inl e
         | Inr (body, p6) \<Rightarrow>
         (case consume ts p6 RBRACE (''Expected '' @ quoted ''}'') of
           Inl e \<Rightarrow> Inl e
         | Inr (_, p7) \<Rightarrow>
             Inr (FunctionDeclaration (tok_value name) body (getNodePosition ts p7 start), p7))))))))"
| "parseBody stops ts pos body =
     (if \<not> list_ex (check ts pos) stops \<and> \<not> isAtEnd ts pos
      then (if check ts pos NEWLINE then parseBody stops ts (snd (advanceP ts pos)) body
            else (case parseStatement ts pos of
                    Inl e \<Rightarrow> Inl e
                  | Inr (Some stmt, p) \<Rightarrow> parseBody stops ts p (body @ [stmt])
                  | Inr (None, p) \<Rightarrow> parseBody stops ts (snd (advanceP ts p)) body))
      else Inr (body, pos))"
  by pat_completeness auto


subsection \<open>Termination of the builder: every call returns at or after its cursor\<close>

lemma consume_Inr:
  "consume ts pos ty msg = Inr (t, p) \<Longrightarrow> ty \<noteq> EOF \<Longrightarrow>
     check ts pos ty \<and> pos < length ts \<and> p = pos + 1 \<and> t = Some (ts ! pos)"
  by (auto simp: consume_def advanceP_not_end check_not_end split: if_splits dest: check_lt)

lemma parseExpression_Inr:
  "parseExpression ts pos = Inr (e, p) \<Longrightarrow> pos < length ts \<and> p = pos + 1"
  by (auto simp: parseExpression_def advanceP_not_end check_not_end split: if_splits dest: check_lt)

lemma parseLoopHeader_gt: "parseLoopHeader ts pos kind = Inr (r, p) \<Longrightarrow> pos < p \<and> p \<le> length ts"
  by (auto simp: parseLoopHeader_def split: if_splits sum.splits prod.splits option.splits
           dest!: consume_Inr parseExpression_Inr)

lemma parsePipelineLoop_ge: "parsePipelineLoop ts pos cs = Inr (cs', p) \<Longrightarrow> pos \<le> p"
proof (induction ts pos cs rule: parsePipelineLoop.induct)
  case (1 ts pos commands)
  show ?case
  proof (cases "check ts pos PIPE")
    case True
    then have adv: "advanceP ts pos = (Some (ts ! pos), pos + 1)"
      by (simp add: advanceP_not_end check_not_end)
    from True "1.prems" adv obtain c q where
      c: "parseCommand ts (pos + 1) = Inr (c, q)" and
      rest: "parsePipelineLoop ts q (commands @ [c]) = Inr (cs', p)"
      by (subst (asm) parsePipelineLoop.simps) (auto split: sum.splits)
    from "1.IH" True c rest adv have "q \<le> p" by auto
    moreover from c have "pos + 1 < q" by (rule parseCommand_gt)
    ultimately show ?thesis by simp
  next
    case False
    with "1.prems" show ?thesis by (subst (asm) parsePipelineLoop.simps) simp
  qed
qed

lemma parsePipeline_gt: "parsePipeline ts pos = Inr (s, p) \<Longrightarrow> pos < p"
  by (auto simp: parsePipeline_def split: sum.splits prod.splits if_splits
           dest!: parseCommand_gt parsePipelineLoop_ge)

lemma parseVariableAssignment_gt:
  "parseVariableAssignment ts pos = Inr (s, p) \<Longrightarrow> pos < p"
  using advanceP_ge[of pos ts]
  by (auto simp: parseVariableAssignment_def Let_def
           split: sum.splits prod.splits option.splits
           dest!: consume_Inr parseExpression_Inr)

text \<open>
  The recursion is nested (a body loop continues from the cursor that \<open>parseStatement\<close>
  returned), so the progress of each call is proved first for the arguments on which the
  functions are defined, and totality follows from it.
\<close>

abbreviation parse_dom where
  "parse_dom \<equiv> parseStatement_parseConditional_parseLoop_parseFunction_parseBody_dom"

lemma parse_progress_partial:
  "parse_dom (Inl (Inl (ts, pos))) \<Longrightarrow>
     (\<forall>r p. parseStatement ts pos = Inr (r, p) \<longrightarrow> pos \<le> p \<and> (r \<noteq> None \<longrightarrow> pos < p))"
  "parse_dom (Inl (Inr (ts, pos))) \<Longrightarrow>
     (\<forall>s p. parseConditional ts pos = Inr (s, p) \<longrightarrow> pos < p)"
  "parse_dom (Inr (Inl (ts, pos))) \<Longrightarrow>
     (\<forall>s p. parseLoop ts pos = Inr (s, p) \<longrightarrow> pos < p)"
  "parse_dom (Inr (Inr (Inl (ts, pos)))) \<Longrightarrow>
     (\<forall>s p. parseFunction ts pos = Inr (s, p) \<longrightarrow> pos < p)"
  "parse_dom (Inr (Inr (Inr (stops, ts, pos, body)))) \<Longrightarrow>
     (\<forall>b p. parseBody stops ts pos body = Inr (b, p) \<longrightarrow> pos \<le> p)"
proof (induct rule: parseStatement_parseConditional_parseLoop_parseFunction_parseBody.pinduct)
  case (1 ts pos)
  note dom = "1.hyps"(1)
  show ?case
  proof (intro allI impI)
    fix r p
    assume "parseStatement ts pos = Inr (r, p)"
    note eq = this[unfolded parseStatement.psimps[OF dom]]
    show "pos \<le> p \<and> (r \<noteq> None \<longrightarrow> pos < p)"
    proof (cases "check ts pos COMMENT")
      case True
      with eq advanceP_ge[of pos ts] show ?thesis by auto
    next
      case c1: False
      show ?thesis
      proof (cases "check ts pos EOF")
        case True
        with c1 eq show ?thesis by simp
      next
        case c2: False
        show ?thesis
        proof (cases "check ts pos IF")
          case True
          from "1.hyps"(2)[OF c1 c2 True] c1 c2 True eq show ?thesis
            by (auto split: sum.splits)
        next
          case c3: False
          show ?thesis
          proof (cases "check ts pos FOR \<or> check ts pos WHILE")
            case True
            from "1.hyps"(3)[OF c1 c2 c3 True] c1 c2 c3 True eq show ?thesis
              by (auto split: sum.splits)
          next
            case c4: False
            show ?thesis
            proof (cases "check ts pos FUNCTION")
              case True
              from "1.hyps"(4)[OF c1 c2 c3 c4 True] c1 c2 c3 c4 True eq show ?thesis
                by (auto split: sum.splits)
            next
              case c5: False
              from c1 c2 c3 c4 c5 eq show ?thesis
                by (auto split: sum.splits if_splits
                         dest!: parsePipeline_gt parseVariableAssignment_gt)
            qed
          qed
        qed
      qed
    qed
  qed
next
  case (2 ts pos)
  note dom = "2.hyps"(1)
  show ?case
  proof (intro allI impI)
    fix s p
    assume "parseConditional ts pos = Inr (s, p)"
    note eq = this[unfolded parseConditional.psimps[OF dom] Let_def]
    from eq obtain t1 p1 where c1: "consume ts pos IF (''Expected '' @ quoted ''if'') = Inr (t1, p1)"
      by (auto split: sum.splits)
    from eq c1 obtain e p2 where c2: "parseExpression ts p1 = Inr (e, p2)"
      by (auto split: sum.splits)
    from eq c1 c2 obtain t3 p3 where
      c3: "consume ts p2 THEN (''Expected '' @ quoted ''then'') = Inr (t3, p3)"
      by (auto split: sum.splits)
    from eq c1 c2 c3 obtain tb p4 where c4: "parseBody [ELSE, FI] ts p3 [] = Inr (tb, p4)"
      by (auto split: sum.splits)
    from eq c1 c2 c3 c4 obtain eb p5 where
      c5: "(if check ts p4 ELSE
            then (case parseBody [FI] ts (snd (advanceP ts p4)) [] of
                    Inl e \<Rightarrow> Inl e
                  | Inr (b, p) \<Rightarrow> Inr (Some b, p))
            else Inr (None, p4)) = Inr (eb, p5)"
      by (auto split: sum.splits)
    from eq c1 c2 c3 c4 c5 obtain t6 where
      c6: "consume ts p5 FI (''Expected '' @ quoted ''fi'') = Inr (t6, p)"
      by (auto split: sum.splits)
    from consume_Inr[OF c1] have "p1 = pos + 1" by simp
    moreover from parseExpression_Inr[OF c2] have "p2 = p1 + 1" by simp
    moreover from consume_Inr[OF c3] have "p3 = p2 + 1" by simp
    moreover from "2.hyps"(2)[OF refl c1 refl c2 refl c3 refl] c4 have "p3 \<le> p4" by simp
    moreover have "p4 \<le> p5"
    proof (cases "check ts p4 ELSE")
      case True
      with c5 obtain b where b: "parseBody [FI] ts (snd (advanceP ts p4)) [] = Inr (b, p5)"
        by (auto split: sum.splits)
      from "2.hyps"(3)[OF refl c1 refl c2 refl c3 refl c4 refl True] b
      have "snd (advanceP ts p4) \<le> p5" by simp
      with advanceP_ge[of p4 ts] show ?thesis by simp
    next
      case False
      with c5 show ?thesis by simp
    qed
    moreover from consume_Inr[OF c6] have "p = p5 + 1" by simp
    ultimately show "pos < p" by simp
  qed
next
  case (3 ts pos)
  note dom = "3.hyps"(1)
  show ?case
  proof (intro allI impI)
    fix s p
    assume "parseLoop ts pos = Inr (s, p)"
    note eq = this[unfolded parseLoop.psimps[OF dom] Let_def]
    from eq obtain token p1 where c1: "advanceP ts pos = (Some token, p1)"
      by (auto split: prod.splits option.splits)
    from eq c1 obtain variable iterable condition p2 where
      c2: "parseLoopHeader ts p1 (tok_value token) = Inr ((variable, iterable, condition), p2)"
      by (auto split: sum.splits)
    from eq c1 c2 obtain t3 p3 where
      c3: "consume ts p2 DO (''Expected '' @ quoted ''do'') = Inr (t3, p3)"
      by (auto split: sum.splits)
    from eq c1 c2 c3 obtain b p4 where c4: "parseBody [DONE] ts p3 [] = Inr (b, p4)"
      by (auto split: sum.splits)
    from eq c1 c2 c3 c4 obtain t5 where
      c5: "consume ts p4 DONE (''Expected '' @ quoted ''done'') = Inr (t5, p)"
      by (auto split: sum.splits)
    from advanceP_ge[of pos ts] c1 have "pos \<le> p1" by simp
    moreover from parseLoopHeader_gt[OF c2] have "p1 < p2" by simp
    moreover from consume_Inr[OF c3] have "p3 = p2 + 1" by simp
    moreover from "3.hyps"(2)[OF refl c1[symmetric] refl c2 refl refl refl c3 refl] c4
    have "p3 \<le> p4" by simp
    moreover from consume_Inr[OF c5] have "p = p4 + 1" by simp
    ultimately show "pos < p" by simp
  qed
next
  case (4 ts pos)
  note dom = "4.hyps"(1)
  show ?case
  proof (intro allI impI)
    fix s p
    assume "parseFunction ts pos = Inr (s, p)"
    note eq = this[unfolded parseFunction.psimps[OF dom] Let_def]
    from eq obtain t1 p1 where
      c1: "consume ts pos FUNCTION (''Expected '' @ quoted ''function'') = Inr (t1, p1)"
      by (auto split: sum.splits)
    from eq c1 obtain name p2 where
      c2: "consume ts p1 WORD ''Expected function name'' = Inr (Some name, p2)"
      by (auto split: sum.splits option.splits)
    from eq c1 c2 obtain t3 p3 where
      c3: "consume ts p2 LPAREN (''Expected '' @ quoted ''('') = Inr (t3, p3)"
      by (auto split: sum.splits)
    from eq c1 c2 c3 obtain t4 p4 where
      c4: "consume ts p3 RPAREN (''Expected '' @ quoted '')'') = Inr (t4, p4)"
      by (auto split: sum.splits)
    from eq c1 c2 c3 c4 obtain t5 p5 where
      c5: "consume ts p4 LBRACE (''Expected '' @ quoted ''{'') = Inr (t5, p5)"
      by (auto split: sum.splits)
    from eq c1 c2 c3 c4 c5 obtain b p6 where c6: "parseBody [RBRACE] ts p5 [] = Inr (b, p6)"
      by (auto split: sum.splits)
    from eq c1 c2 c3 c4 c5 c6 obtain t7 where
      c7: "consume ts p6 RBRACE (''Expected '' @ quoted ''}'') = Inr (t7, p)"
      by (auto split: sum.splits)
    from consume_Inr[OF c1] have "p1 = pos + 1" by simp
    moreover from consume_Inr[OF c2] have "p2 = p1 + 1" by simp
    moreover from consume_Inr[OF c3] have "p3 = p2 + 1" by simp
    moreover from consume_Inr[OF c4] have "p4 = p3 + 1" by simp
    moreover from consume_Inr[OF c5] have "p5 = p4 + 1" by simp
    moreover from "4.hyps"(2)[OF refl c1 refl c2 refl refl c3 refl c4 refl c5 refl] c6
    have "p5 \<le> p6" by simp
    moreover from consume_Inr[OF c7] have "p = p6 + 1" by simp
    ultimately show "pos < p" by simp
  qed
next
  case (5 stops ts pos body)
  note dom = "5.hyps"(1)
  show ?case
  proof (intro allI impI)
    fix b p
    assume "parseBody stops ts pos body = Inr (b, p)"
    note eq = this[unfolded parseBody.psimps[OF dom]]
    show "pos \<le> p"
    proof (cases "\<not> list_ex (check ts pos) stops \<and> \<not> isAtEnd ts pos")
      case False
      with eq show ?thesis by auto
    next
      case run: True
      show ?thesis
      proof (cases "check ts pos NEWLINE")
        case True
        with run eq have "parseBody stops ts (snd (advanceP ts pos)) body = Inr (b, p)" by simp
        with "5.hyps"(2)[OF run True] have "snd (advanceP ts pos) \<le> p" by simp
        with advanceP_ge[of pos ts] show ?thesis by simp
      next
        case nl: False
        from run nl eq obtain r q where st: "parseStatement ts pos = Inr (r, q)"
          by (auto split: sum.splits)
        from "5.hyps"(3)[OF run nl] st have "pos \<le> q" by simp
        show ?thesis
        proof (cases r)
          case None
          with run nl eq st have "parseBody stops ts (snd (advanceP ts q)) body = Inr (b, p)"
            by simp
          with "5.hyps"(4)[OF run nl st refl None] have "snd (advanceP ts q) \<le> p" by simp
          with advanceP_ge[of q ts] \<open>pos \<le> q\<close> show ?thesis by simp
        next
          case (Some stmt)
          with run nl eq st have "parseBody stops ts q (body @ [stmt]) = Inr (b, p)" by simp
          with "5.hyps"(5)[OF run nl st refl Some] have "q \<le> p" by simp
          with \<open>pos \<le> q\<close> show ?thesis by simp
        qed
      qed
    qed
  qed
qed


definition parse_measure ::
    "((Token list \<times> nat) + (Token list \<times> nat)) +
     ((Token list \<times> nat) + ((Token list \<times> nat) +
        (TokenType list \<times> Token list \<times> nat \<times> Statement list))) \<Rightarrow> nat \<times> nat" where
  "parse_measure x =
     (case x of
        Inl (Inl (ts, pos)) \<Rightarrow> (length ts - pos, 1)
      | Inl (Inr (ts, pos)) \<Rightarrow> (length ts - pos, 0)
      | Inr (Inl (ts, pos)) \<Rightarrow> (length ts - pos, 0)
      | Inr (Inr (Inl (ts, pos))) \<Rightarrow> (length ts - pos, 0)
      | Inr (Inr (Inr (stops, ts, pos, body))) \<Rightarrow> (length ts - pos, 2))"

lemma not_end_lt: "\<not> isAtEnd ts pos \<Longrightarrow> pos < length ts"
  by (simp add: isAtEnd_def)

lemma parse_dom_all: "All parse_dom"
proof (relation "inv_image (less_than <*lex*> less_than) parse_measure", goal_cases)
  case 1
  show ?case by (intro wf_inv_image wf_lex_prod wf_less_than)
next
  case 2
  show ?case by (simp add: parse_measure_def)
next
  case 3
  show ?case by (simp add: parse_measure_def)
next
  case 4
  show ?case by (simp add: parse_measure_def)
next
  case (5 ts pos x b xa y ba xaa ya bb xab yb)
  from 5 have "consume ts pos IF (''Expected '' @ quoted ''if'') = Inr (xa, y)"
    and "parseExpression ts y = Inr (xaa, ya)"
    and "consume ts ya THEN (''Expected '' @ quoted ''then'') = Inr (xab, yb)" by simp_all
  then have "pos < length ts" "pos < yb"
    by (auto dest!: consume_Inr parseExpression_Inr)
  then show ?case by (simp add: parse_measure_def)
next
  case (6 ts pos x b xa y ba xaa ya bb xab yb bc xac yc)
  from 6 have "consume ts pos IF (''Expected '' @ quoted ''if'') = Inr (xa, y)"
    and "parseExpression ts y = Inr (xaa, ya)"
    and "consume ts ya THEN (''Expected '' @ quoted ''then'') = Inr (xab, yb)" by simp_all
  then have "pos < length ts" "pos < yb"
    by (auto dest!: consume_Inr parseExpression_Inr)
  moreover from parse_progress_partial(5)[OF 6(11)] 6(8,9) have "yb \<le> yc" by auto
  moreover note advanceP_ge[of yc ts]
  ultimately show ?case by (simp add: parse_measure_def)
next
  case (7 ts pos x xa y x2 b xaa ya xab yb xac yc ba xad yd)
  from 7 have "advanceP ts pos = (xa, y)"
    and "parseLoopHeader ts y (tok_value x2) = Inr (xaa, ya)"
    and "consume ts ya DO (''Expected '' @ quoted ''do'') = Inr (xad, yd)" by simp_all
  with advanceP_ge[of pos ts] have "pos < length ts" "pos < yd"
    by (auto dest!: consume_Inr parseLoopHeader_gt)
  then show ?case by (simp add: parse_measure_def)
next
  case (8 ts pos x b xa y ba xaa ya x2 bb xab yb bc xac yc bd xad yd)
  from 8 have "consume ts pos FUNCTION (''Expected '' @ quoted ''function'') = Inr (xa, y)"
    and "consume ts yc LBRACE (''Expected '' @ quoted ''{'') = Inr (xad, yd)"
    and "consume ts y WORD ''Expected function name'' = Inr (xaa, ya)"
    and "consume ts ya LPAREN (''Expected '' @ quoted ''('') = Inr (xab, yb)"
    and "consume ts yb RPAREN (''Expected '' @ quoted '')'') = Inr (xac, yc)" by simp_all
  then have "pos < length ts" "pos < yd"
    by (auto dest!: consume_Inr)
  then show ?case by (simp add: parse_measure_def)
next
  case (9 stops ts pos body)
  then have ne: "\<not> isAtEnd ts pos" by simp
  with not_end_lt[OF ne] show ?case by (simp add: parse_measure_def advanceP_not_end)
next
  case 10
  show ?case by (simp add: parse_measure_def)
next
  case (11 stops ts pos body b x y)
  then have ne: "\<not> isAtEnd ts pos" and st: "parseStatement ts pos = Inr (x, y)" by simp_all
  from parse_progress_partial(1)[OF 11(6)] st have "pos \<le> y" by auto
  have "pos < snd (advanceP ts y)"
  proof (cases "y = pos")
    case True
    with ne show ?thesis by (simp add: advanceP_not_end)
  next
    case False
    with \<open>pos \<le> y\<close> advanceP_ge[of y ts] show ?thesis by simp
  qed
  with not_end_lt[OF ne] show ?case by (simp add: parse_measure_def)
next
  case (12 stops ts pos body b x y x2)
  then have ne: "\<not> isAtEnd ts pos" and st: "parseStatement ts pos = Inr (Some x2, y)"
    by simp_all
  from parse_progress_partial(1)[OF 12(6)] st have "pos < y" by auto
  with not_end_lt[OF ne] show ?case by (simp add: parse_measure_def)
qed



termination parseStatement
  by (rule parse_dom_all)

declare parseStatement.simps [simp del] parseConditional.simps [simp del]
  parseLoop.simps [simp del] parseFunction.simps [simp del] parseBody.simps [simp del]

lemma parseStatement_progress:
  "parseStatement ts pos = Inr (r, p) \<Longrightarrow> pos \<le> p \<and> (r \<noteq> None \<longrightarrow> pos < p)"
  using parse_progress_partial(1)[of ts pos] parse_dom_all by blast

lemma parseBody_progress: "parseBody stops ts pos body = Inr (b, p) \<Longrightarrow> pos \<le> p"
  using parse_progress_partial(5)[of stops ts pos body] parse_dom_all by blast

subsection \<open>The top-level loop and the entry point\<close>

text \<open>
  The loop of \<^verbatim>\<open>parseStatements\<close>, with the statements collected so far. It terminates
  because each turn leaves the cursor further on.
\<close>

function parseStatementsLoop ::
    "Token list \<Rightarrow> nat \<Rightarrow> Statement list \<Rightarrow> Thrown + (Statement list \<times> nat)" where
  "parseStatementsLoop ts pos statements =
     (if \<not> isAtEnd ts pos \<and> \<not> check ts pos EOF
      then (if check ts pos NEWLINE
            then parseStatementsLoop ts (snd (advanceP ts pos)) statements
            else (case parseStatement ts pos of
                    Inl e \<Rightarrow> Inl e
                  | Inr (stmt, p1) \<Rightarrow>
                      (let (statements', p2) =
                             (case stmt of
                                Some s \<Rightarrow> (statements @ [s], p1)
                              | None \<Rightarrow> (statements, snd (advanceP ts p1)));
                           p3 = (if check ts p2 SEMICOLON \<or> check ts p2 NEWLINE
                                 then snd (advanceP ts p2) else p2)
                       in parseStatementsLoop ts p3 statements')))
      else Inr (statements, pos))"
  by pat_completeness auto
termination
proof (relation "measure (\<lambda>(ts, pos, statements). length ts - pos)", goal_cases)
  case 1
  show ?case by simp
next
  case (2 ts pos statements)
  then have ne: "\<not> isAtEnd ts pos" by simp
  with not_end_lt[OF ne] show ?case by (simp add: advanceP_not_end)
next
  case (3 ts pos statements b stmt p1 x statements' p2 p3)
  then have ne: "\<not> isAtEnd ts pos" and st: "parseStatement ts pos = Inr (stmt, p1)"
    by simp_all
  from parseStatement_progress[OF st] have le: "pos \<le> p1" and lt: "stmt \<noteq> None \<longrightarrow> pos < p1"
    by simp_all
  have "pos < p2"
  proof (cases stmt)
    case None
    with 3 have p2: "p2 = snd (advanceP ts p1)" by simp
    show ?thesis
    proof (cases "p1 = pos")
      case True
      with ne p2 show ?thesis by (simp add: advanceP_not_end)
    next
      case False
      with le advanceP_ge[of p1 ts] p2 show ?thesis by simp
    qed
  next
    case (Some s)
    with 3 lt show ?thesis by simp
  qed
  moreover from 3 advanceP_ge[of p2 ts] have "p2 \<le> p3" by (simp split: if_splits)
  ultimately show ?case using not_end_lt[OF ne] by simp
qed

declare parseStatementsLoop.simps [simp del]

definition parseStatements :: "Token list \<Rightarrow> nat \<Rightarrow> Thrown + (Statement list \<times> nat)" where
  "parseStatements ts pos = parseStatementsLoop ts pos []"

text \<open>
  \<^verbatim>\<open>parse(input)\<close>: a \<^verbatim>\<open>ParseError\<close> is thrown again as it is; anything else is wrapped in a
  \<^verbatim>\<open>ParseError\<close> at the current token. The text that the template literal gives for the
  \<^verbatim>\<open>TypeError\<close> is the engine's; it is the one of V8 (every place that reads a property of
  the token returned by \<^verbatim>\<open>advance()\<close> reads \<^verbatim>\<open>value\<close> first). \<open>parse_Inl\<close> below shows that
  this branch is never taken.
\<close>

definition typeErrorText :: string where
  "typeErrorText =
     ''TypeError: Cannot read properties of undefined (reading '' @ quoted ''value'' @ '')''"

definition parse :: "string \<Rightarrow> ParseError + Program" where
  "parse inp =
     (let tokens = tokenize inp
      in case parseStatements tokens 0 of
           Inr (body, pos) \<Rightarrow> Inr (Program body (getNodePosition tokens pos None))
         | Inl (ThrownParseError e) \<Rightarrow> Inl e
         | Inl (ThrownTypeError pos) \<Rightarrow>
             Inl (ParseError (''Unexpected error: '' @ typeErrorText)
                    (map_option tok_position (currentToken tokens pos))))"

section \<open>The nodes of a tree\<close>

text \<open>The statements directly below a statement node.\<close>

fun children :: "Statement \<Rightarrow> Statement list" where
  "children (Conditional c th el p) = th @ (case el of None \<Rightarrow> [] | Some xs \<Rightarrow> xs)"
| "children (Loop k c v i b p) = b"
| "children (FunctionDeclaration n b p) = b"
| "children (CommandStmt c) = []"
| "children (Pipeline cs p) = []"
| "children (VariableAssignment n v p) = []"

lemma size_children: "x \<in> set (children st) \<Longrightarrow> size x < size st"
  by (cases st) (auto simp: less_Suc_eq_le dest!: size_list_estimation' [where f = size and y = "size x"] split: option.splits)


text \<open>Every statement node of the tree below a statement, the statement itself first.\<close>

function statements_of :: "Statement \<Rightarrow> Statement list" where
  "statements_of st = st # concat (map statements_of (children st))"
  by pat_completeness auto
termination
  by (relation "measure size") (auto simp: size_children)

declare statements_of.simps [simp del]

definition program_statements :: "Program \<Rightarrow> Statement list" where
  "program_statements prog = (case prog of Program body p \<Rightarrow> concat (map statements_of body))"

text \<open>The position of a node, and the commands and expressions directly in a statement.\<close>

fun expression_position :: "Expression \<Rightarrow> Position option" where
  "expression_position (Literal v q p) = p"
| "expression_position (Variable n p) = p"

fun command_position :: "Command \<Rightarrow> Position option" where
  "command_position (Command n args p) = p"

fun statement_position :: "Statement \<Rightarrow> Position option" where
  "statement_position (CommandStmt c) = command_position c"
| "statement_position (Pipeline cs p) = p"
| "statement_position (Conditional c th el p) = p"
| "statement_position (Loop k c v i b p) = p"
| "statement_position (FunctionDeclaration n b p) = p"
| "statement_position (VariableAssignment n v p) = p"

fun statement_commands :: "Statement \<Rightarrow> Command list" where
  "statement_commands (CommandStmt c) = [c]"
| "statement_commands (Pipeline cs p) = cs"
| "statement_commands (Conditional c th el p) = []"
| "statement_commands (Loop k c v i b p) = []"
| "statement_commands (FunctionDeclaration n b p) = []"
| "statement_commands (VariableAssignment n v p) = []"

fun statement_expressions :: "Statement \<Rightarrow> Expression list" where
  "statement_expressions (CommandStmt c) = []"
| "statement_expressions (Pipeline cs p) = []"
| "statement_expressions (Conditional c th el p) = [c]"
| "statement_expressions (Loop k c v i b p) =
     (case c of None \<Rightarrow> [] | Some e \<Rightarrow> [e]) @ (case i of None \<Rightarrow> [] | Some e \<Rightarrow> [e])"
| "statement_expressions (FunctionDeclaration n b p) = []"
| "statement_expressions (VariableAssignment n v p) = [v]"

subsection \<open>What a successful call of each method has done\<close>

lemma parseConditional_Inr:
  assumes "parseConditional ts pos = Inr (st, p)"
  obtains c tb p4 eb p5 where
    "check ts pos IF" "parseExpression ts (pos + 1) = Inr (c, pos + 2)"
    "check ts (pos + 2) THEN"
    "parseBody [ELSE, FI] ts (pos + 3) [] = Inr (tb, p4)"
    "if check ts p4 ELSE
     then \<exists>b. parseBody [FI] ts (snd (advanceP ts p4)) [] = Inr (b, p5) \<and> eb = Some b
     else eb = None \<and> p5 = p4"
    "check ts p5 FI" "p = p5 + 1"
    "st = Conditional c tb eb (getNodePosition ts p (map_option tok_position (currentToken ts pos)))"
proof -
  note eq = assms[unfolded parseConditional.simps Let_def]
  from eq obtain t1 p1 where c1: "consume ts pos IF (''Expected '' @ quoted ''if'') = Inr (t1, p1)"
    by (auto split: sum.splits)
  from eq c1 obtain c p2 where c2: "parseExpression ts p1 = Inr (c, p2)"
    by (auto split: sum.splits)
  from eq c1 c2 obtain t3 p3 where
    c3: "consume ts p2 THEN (''Expected '' @ quoted ''then'') = Inr (t3, p3)"
    by (auto split: sum.splits)
  from eq c1 c2 c3 obtain tb p4 where c4: "parseBody [ELSE, FI] ts p3 [] = Inr (tb, p4)"
    by (auto split: sum.splits)
  from eq c1 c2 c3 c4 obtain eb p5 where
    c5: "(if check ts p4 ELSE
          then (case parseBody [FI] ts (snd (advanceP ts p4)) [] of
                  Inl e \<Rightarrow> Inl e
                | Inr (b, p) \<Rightarrow> Inr (Some b, p))
          else Inr (None, p4)) = Inr (eb, p5)"
    by (auto split: sum.splits)
  from eq c1 c2 c3 c4 c5 obtain t6 p6 where
    c6: "consume ts p5 FI (''Expected '' @ quoted ''fi'') = Inr (t6, p6)"
    by (auto split: sum.splits)
  from eq c1 c2 c3 c4 c5 c6 have
    st: "st = Conditional c tb eb (getNodePosition ts p (map_option tok_position (currentToken ts pos)))"
    and p: "p = p6" by auto
  from consume_Inr[OF c1] have p1: "p1 = pos + 1" and k1: "check ts pos IF" by simp_all
  from parseExpression_Inr[OF c2] p1 have p2: "p2 = pos + 2" by simp
  from consume_Inr[OF c3] p2 have p3: "p3 = pos + 3" and k3: "check ts (pos + 2) THEN" by simp_all
  from consume_Inr[OF c6] p have p6: "p = p5 + 1" and k6: "check ts p5 FI" by simp_all
  from c5 have e: "if check ts p4 ELSE
     then \<exists>b. parseBody [FI] ts (snd (advanceP ts p4)) [] = Inr (b, p5) \<and> eb = Some b
     else eb = None \<and> p5 = p4"
    by (auto split: if_splits sum.splits)
  show thesis
    using that[OF k1 _ k3 _ e k6 p6 st] c2 c4 p1 p2 p3 by simp
qed

lemma parseLoop_Inr:
  assumes "parseLoop ts pos = Inr (st, p)"
  obtains token p1 variable iterable condition p2 b p4 where
    "advanceP ts pos = (Some token, p1)"
    "parseLoopHeader ts p1 (tok_value token) = Inr ((variable, iterable, condition), p2)"
    "check ts p2 DO"
    "parseBody [DONE] ts (p2 + 1) [] = Inr (b, p4)"
    "check ts p4 DONE" "p = p4 + 1"
    "st = Loop (tok_value token) condition variable iterable b
            (getNodePosition ts p (map_option tok_position (currentToken ts pos)))"
proof -
  note eq = assms[unfolded parseLoop.simps Let_def]
  from eq obtain token p1 where c1: "advanceP ts pos = (Some token, p1)"
    by (auto split: prod.splits option.splits)
  from eq c1 obtain variable iterable condition p2 where
    c2: "parseLoopHeader ts p1 (tok_value token) = Inr ((variable, iterable, condition), p2)"
    by (auto split: sum.splits)
  from eq c1 c2 obtain t3 p3 where
    c3: "consume ts p2 DO (''Expected '' @ quoted ''do'') = Inr (t3, p3)"
    by (auto split: sum.splits)
  from eq c1 c2 c3 obtain b p4 where c4: "parseBody [DONE] ts p3 [] = Inr (b, p4)"
    by (auto split: sum.splits)
  from eq c1 c2 c3 c4 obtain t5 p5 where
    c5: "consume ts p4 DONE (''Expected '' @ quoted ''done'') = Inr (t5, p5)"
    by (auto split: sum.splits)
  from eq c1 c2 c3 c4 c5 have
    st: "st = Loop (tok_value token) condition variable iterable b
            (getNodePosition ts p (map_option tok_position (currentToken ts pos)))"
    and p: "p = p5" by auto
  from consume_Inr[OF c3] have p3: "p3 = p2 + 1" and k3: "check ts p2 DO" by simp_all
  from consume_Inr[OF c5] p have p5: "p = p4 + 1" and k5: "check ts p4 DONE" by simp_all
  show thesis
    using that[OF c1 c2 k3 _ k5 p5 st] c4 p3 by simp
qed

lemma parseFunction_Inr:
  assumes "parseFunction ts pos = Inr (st, p)"
  obtains b p6 where
    "check ts pos FUNCTION" "check ts (pos + 1) WORD" "check ts (pos + 2) LPAREN"
    "check ts (pos + 3) RPAREN" "check ts (pos + 4) LBRACE"
    "parseBody [RBRACE] ts (pos + 5) [] = Inr (b, p6)"
    "check ts p6 RBRACE" "p = p6 + 1"
    "st = FunctionDeclaration (tok_value (ts ! (pos + 1))) b
            (getNodePosition ts p (map_option tok_position (currentToken ts pos)))"
proof -
  note eq = assms[unfolded parseFunction.simps Let_def]
  from eq obtain t1 p1 where
    c1: "consume ts pos FUNCTION (''Expected '' @ quoted ''function'') = Inr (t1, p1)"
    by (auto split: sum.splits)
  from eq c1 obtain name p2 where
    c2: "consume ts p1 WORD ''Expected function name'' = Inr (Some name, p2)"
    by (auto split: sum.splits option.splits)
  from eq c1 c2 obtain t3 p3 where
    c3: "consume ts p2 LPAREN (''Expected '' @ quoted ''('') = Inr (t3, p3)"
    by (auto split: sum.splits)
  from eq c1 c2 c3 obtain t4 p4 where
    c4: "consume ts p3 RPAREN (''Expected '' @ quoted '')'') = Inr (t4, p4)"
    by (auto split: sum.splits)
  from eq c1 c2 c3 c4 obtain t5 p5 where
    c5: "consume ts p4 LBRACE (''Expected '' @ quoted ''{'') = Inr (t5, p5)"
    by (auto split: sum.splits)
  from eq c1 c2 c3 c4 c5 obtain b p6 where c6: "parseBody [RBRACE] ts p5 [] = Inr (b, p6)"
    by (auto split: sum.splits)
  from eq c1 c2 c3 c4 c5 c6 obtain t7 p7 where
    c7: "consume ts p6 RBRACE (''Expected '' @ quoted ''}'') = Inr (t7, p7)"
    by (auto split: sum.splits)
  from eq c1 c2 c3 c4 c5 c6 c7 have
    st: "st = FunctionDeclaration (tok_value name) b
            (getNodePosition ts p (map_option tok_position (currentToken ts pos)))"
    and p: "p = p7" by auto
  from consume_Inr[OF c1] have p1: "p1 = pos + 1" and k1: "check ts pos FUNCTION" by simp_all
  from consume_Inr[OF c2] p1 have p2: "p2 = pos + 2" and k2: "check ts (pos + 1) WORD"
    and name: "name = ts ! (pos + 1)" by simp_all
  from consume_Inr[OF c3] p2 have p3: "p3 = pos + 3" and k3: "check ts (pos + 2) LPAREN"
    by simp_all
  from consume_Inr[OF c4] p3 have p4: "p4 = pos + 4" and k4: "check ts (pos + 3) RPAREN"
    by simp_all
  from consume_Inr[OF c5] p4 have p5: "p5 = pos + 5" and k5: "check ts (pos + 4) LBRACE"
    by simp_all
  from consume_Inr[OF c7] p have p7: "p = p6 + 1" and k7: "check ts p6 RBRACE" by simp_all
  show thesis
    using that[OF k1 k2 k3 k4 k5 _ k7 p7] c6 p5 st name by simp
qed

text \<open>One turn of a body loop.\<close>

lemma parseBody_stop:
  "list_ex (check ts pos) stops \<or> isAtEnd ts pos \<Longrightarrow> parseBody stops ts pos body = Inr (body, pos)"
  by (subst parseBody.simps) auto

lemma parseBody_newline:
  "\<not> list_ex (check ts pos) stops \<Longrightarrow> \<not> isAtEnd ts pos \<Longrightarrow> check ts pos NEWLINE \<Longrightarrow>
     parseBody stops ts pos body = parseBody stops ts (pos + 1) body"
  by (subst parseBody.simps) (simp add: advanceP_not_end)

lemma parseBody_statement:
  "\<not> list_ex (check ts pos) stops \<Longrightarrow> \<not> isAtEnd ts pos \<Longrightarrow> \<not> check ts pos NEWLINE \<Longrightarrow>
     parseBody stops ts pos body =
       (case parseStatement ts pos of
          Inl e \<Rightarrow> Inl e
        | Inr (Some stmt, p) \<Rightarrow> parseBody stops ts p (body @ [stmt])
        | Inr (None, p) \<Rightarrow> parseBody stops ts (snd (advanceP ts p)) body)"
  by (subst parseBody.simps) simp


lemma parseStatement_Inr:
  assumes "parseStatement ts pos = Inr (Some st, p)"
  shows "(check ts pos IF \<and> parseConditional ts pos = Inr (st, p))
       \<or> ((check ts pos FOR \<or> check ts pos WHILE) \<and> parseLoop ts pos = Inr (st, p))
       \<or> (check ts pos FUNCTION \<and> parseFunction ts pos = Inr (st, p))
       \<or> (check ts pos WORD \<and> isVariableAssignment ts pos
            \<and> parseVariableAssignment ts pos = Inr (st, p))
       \<or> (check ts pos WORD \<and> \<not> isVariableAssignment ts pos
            \<and> parsePipeline ts pos = Inr (st, p))"
  using assms
  by (subst (asm) parseStatement.simps)
     (auto split: if_splits sum.splits simp: isVariableAssignment_def)

lemma parsePipeline_children: "parsePipeline ts pos = Inr (st, p) \<Longrightarrow> children st = []"
  by (auto simp: parsePipeline_def split: sum.splits if_splits)

lemma parseVariableAssignment_children:
  "parseVariableAssignment ts pos = Inr (st, p) \<Longrightarrow> children st = []"
  by (auto simp: parseVariableAssignment_def Let_def split: sum.splits prod.splits option.splits)

text \<open>The statements below a node were collected by a body loop that started further on.\<close>

lemma parseStatement_children:
  assumes "parseStatement ts pos = Inr (Some st, p)" and "x \<in> set (children st)"
  obtains stops q b q' where
    "pos < q" "pos < length ts" "parseBody stops ts q [] = Inr (b, q')" "x \<in> set b"
proof -
  from parseStatement_Inr[OF assms(1)]
  consider (cond) "parseConditional ts pos = Inr (st, p)"
    | (loop) "parseLoop ts pos = Inr (st, p)"
    | (func) "parseFunction ts pos = Inr (st, p)"
    | (leaf) "children st = []"
    by (auto dest: parsePipeline_children parseVariableAssignment_children)
  then show thesis
  proof cases
    case cond
    then obtain c tb p4 eb p5 where
      k: "check ts pos IF" and
      tb: "parseBody [ELSE, FI] ts (pos + 3) [] = Inr (tb, p4)" and
      eb: "if check ts p4 ELSE
           then \<exists>b. parseBody [FI] ts (snd (advanceP ts p4)) [] = Inr (b, p5) \<and> eb = Some b
           else eb = None \<and> p5 = p4" and
      st: "st = Conditional c tb eb (getNodePosition ts p (map_option tok_position (currentToken ts pos)))"
      by (rule parseConditional_Inr)
    from k have lt: "pos < length ts" by (rule check_lt)
    from assms(2) st consider "x \<in> set tb" | b where "eb = Some b" "x \<in> set b"
      by (auto split: option.splits)
    then show thesis
    proof cases
      case 1
      with that[OF _ lt tb] show thesis by simp
    next
      case 2
      with eb have e: "parseBody [FI] ts (snd (advanceP ts p4)) [] = Inr (b, p5)"
        by (auto split: if_splits)
      from parseBody_progress[OF tb] advanceP_ge[of p4 ts] have "pos < snd (advanceP ts p4)"
        by simp
      from that[OF this lt e 2(2)] show thesis .
    qed
  next
    case loop
    then obtain token p1 variable iterable condition p2 b p4 where
      a: "advanceP ts pos = (Some token, p1)" and
      h: "parseLoopHeader ts p1 (tok_value token) = Inr ((variable, iterable, condition), p2)" and
      b: "parseBody [DONE] ts (p2 + 1) [] = Inr (b, p4)" and
      st: "st = Loop (tok_value token) condition variable iterable b
            (getNodePosition ts p (map_option tok_position (currentToken ts pos)))"
      by (rule parseLoop_Inr)
    from a advanceP_ge[of pos ts] have "pos \<le> p1" by simp
    with parseLoopHeader_gt[OF h] have "pos < p2 + 1" "pos < length ts" by simp_all
    moreover from assms(2) st have "x \<in> set b" by simp
    ultimately show thesis using that b by blast
  next
    case func
    then obtain b p6 where
      k: "check ts pos FUNCTION" and
      b: "parseBody [RBRACE] ts (pos + 5) [] = Inr (b, p6)" and
      st: "st = FunctionDeclaration (tok_value (ts ! (pos + 1))) b
            (getNodePosition ts p (map_option tok_position (currentToken ts pos)))"
      by (rule parseFunction_Inr)
    from k have lt: "pos < length ts" by (rule check_lt)
    from assms(2) st have "x \<in> set b" by simp
    with that[OF _ lt b] show thesis by simp
  next
    case leaf
    with assms(2) show thesis by simp
  qed
qed

text \<open>What holds of every statement that \<open>parseStatement\<close> returns holds of a collected body.\<close>

lemma parseBody_all:
  assumes Q: "\<And>i st j. pos0 \<le> i \<Longrightarrow> parseStatement ts i = Inr (Some st, j) \<Longrightarrow> Q st"
  shows "pos0 \<le> pos \<Longrightarrow> parseBody stops ts pos acc = Inr (b, p) \<Longrightarrow> \<forall>x\<in>set acc. Q x \<Longrightarrow>
           \<forall>x\<in>set b. Q x"
proof (induction "length ts - pos" arbitrary: pos acc rule: less_induct)
  case less
  show ?case
  proof (cases "list_ex (check ts pos) stops \<or> isAtEnd ts pos")
    case True
    from parseBody_stop[OF True] less.prems show ?thesis by simp
  next
    case False
    then have ns: "\<not> list_ex (check ts pos) stops" and ne: "\<not> isAtEnd ts pos" by simp_all
    from ne have lt: "pos < length ts" by (rule not_end_lt)
    show ?thesis
    proof (cases "check ts pos NEWLINE")
      case True
      from parseBody_newline[OF ns ne True] less.prems(2)
      have "parseBody stops ts (pos + 1) acc = Inr (b, p)" by simp
      moreover from lt have "length ts - (pos + 1) < length ts - pos" by simp
      ultimately show ?thesis using less.hyps less.prems(1,3) by simp
    next
      case nl: False
      note eq = less.prems(2)[unfolded parseBody_statement[OF ns ne nl]]
      from eq obtain r q where st: "parseStatement ts pos = Inr (r, q)"
        by (auto split: sum.splits)
      from parseStatement_progress[OF st] have le: "pos \<le> q" and gt: "r \<noteq> None \<longrightarrow> pos < q"
        by simp_all
      show ?thesis
      proof (cases r)
        case None
        with eq st have rec: "parseBody stops ts (snd (advanceP ts q)) acc = Inr (b, p)" by simp
        have "pos < snd (advanceP ts q)"
        proof (cases "q = pos")
          case True
          with ne show ?thesis by (simp add: advanceP_not_end)
        next
          case False
          with le advanceP_ge[of q ts] show ?thesis by simp
        qed
        with lt have "length ts - snd (advanceP ts q) < length ts - pos"
          and "pos0 \<le> snd (advanceP ts q)" using less.prems(1) by simp_all
        with less.hyps rec less.prems(3) show ?thesis by blast
      next
        case (Some stmt)
        with eq st have rec: "parseBody stops ts q (acc @ [stmt]) = Inr (b, p)" by simp
        from Q[OF less.prems(1)] st Some have "Q stmt" by simp
        with less.prems(3) have all: "\<forall>x\<in>set (acc @ [stmt]). Q x" by simp
        from gt Some lt have "length ts - q < length ts - pos" and "pos0 \<le> q"
          using less.prems(1) by simp_all
        with less.hyps rec all show ?thesis by blast
      qed
    qed
  qed
qed

text \<open>
  Every statement node of a tree that \<open>parseStatement\<close> returns was itself returned by
  \<open>parseStatement\<close>, at some cursor.
\<close>

lemma statement_nodes:
  "parseStatement ts pos = Inr (Some st, p) \<Longrightarrow>
     \<forall>n\<in>set (statements_of st). \<exists>i j. parseStatement ts i = Inr (Some n, j)"
proof (induction "length ts - pos" arbitrary: pos st p rule: less_induct)
  case less
  let ?Q = "\<lambda>x. \<forall>n\<in>set (statements_of x). \<exists>i j. parseStatement ts i = Inr (Some n, j)"
  have "?Q x" if x: "x \<in> set (children st)" for x
  proof -
    from less.prems x obtain stops q b q' where
      q: "pos < q" "pos < length ts" and b: "parseBody stops ts q [] = Inr (b, q')"
      and xb: "x \<in> set b"
      by (rule parseStatement_children)
    have "\<forall>x\<in>set b. ?Q x"
    proof (rule parseBody_all[where Q = ?Q and ?pos0.0 = q, OF _ _ b])
      fix i st' j
      assume "q \<le> i" and "parseStatement ts i = Inr (Some st', j)"
      with q less.hyps[of i st' j] show "?Q st'" by simp
    qed simp_all
    with xb show ?thesis by blast
  qed
  moreover from less.prems have "\<exists>i j. parseStatement ts i = Inr (Some st, j)" by blast
  ultimately show ?case
    by (subst statements_of.simps) auto
qed

section \<open>Evaluation on concrete inputs\<close>

text \<open>The defining equations, for running the scanner and the builder on a given text.\<close>

lemmas tok_eval = tokenize_def newTokenizer_def tokenizeLoop.simps nextToken_def
  skipWhitespace.simps readCommentLoop.simps readQuotedLoop.simps readBracedLoop.simps
  readWordLoop.simps readComment_def readQuotedString_def readVariable_def readWord_def
  readOperator_def readSingle_def createToken_def getPosition_def advance_def current_def
  isWordChar_def isBlank_def getKeywordType_def objectPrototypeProperties_def Let_def

lemmas parse_eval = parse_def parseStatements_def parseStatementsLoop.simps
  parseStatement.simps parseConditional.simps parseLoop.simps parseFunction.simps
  parseBody.simps parseLoopHeader_def parseVariableAssignment_def isVariableAssignment_def
  parsePipeline_def parsePipelineLoop.simps parseCommand_def parseArgs.simps
  parseExpression_def getNodePosition_def consume_def throwParseError_def advanceP_def
  isAtEnd_def check_def currentToken_def quoted_def Let_def



section \<open>Properties of the builder and the scanner\<close>

subsection \<open>The statements of a program\<close>

lemma parseStatementsLoop_stop:
  "isAtEnd ts pos \<Longrightarrow> parseStatementsLoop ts pos acc = Inr (acc, pos)"
  by (subst parseStatementsLoop.simps) simp

lemma parseStatementsLoop_newline:
  "\<not> isAtEnd ts pos \<Longrightarrow> check ts pos NEWLINE \<Longrightarrow>
     parseStatementsLoop ts pos acc = parseStatementsLoop ts (pos + 1) acc"
  by (subst parseStatementsLoop.simps) (auto simp: advanceP_not_end isAtEnd_def)

lemma parseStatementsLoop_statement:
  assumes "\<not> isAtEnd ts pos" "\<not> check ts pos NEWLINE" "parseStatement ts pos = Inr (stmt, p1)"
  obtains p3 where
    "parseStatementsLoop ts pos acc =
       parseStatementsLoop ts p3 (case stmt of Some s \<Rightarrow> acc @ [s] | None \<Rightarrow> acc)"
    "pos < p3"
proof -
  define p2 where "p2 = (case stmt of Some s \<Rightarrow> p1 | None \<Rightarrow> snd (advanceP ts p1))"
  define p3 where "p3 = (if check ts p2 SEMICOLON \<or> check ts p2 NEWLINE
                         then snd (advanceP ts p2) else p2)"
  from assms(1) have ne: "\<not> check ts pos EOF" by (simp add: isAtEnd_def)
  have eq: "parseStatementsLoop ts pos acc =
       parseStatementsLoop ts p3 (case stmt of Some s \<Rightarrow> acc @ [s] | None \<Rightarrow> acc)"
    using assms ne
    by (subst parseStatementsLoop.simps) (auto simp: p2_def p3_def Let_def split: option.splits)
  from parseStatement_progress[OF assms(3)]
  have le: "pos \<le> p1" and lt: "stmt \<noteq> None \<longrightarrow> pos < p1" by simp_all
  have "pos < p2"
  proof (cases stmt)
    case None
    show ?thesis
    proof (cases "p1 = pos")
      case True
      with assms(1) None show ?thesis by (simp add: p2_def advanceP_not_end)
    next
      case False
      with le advanceP_ge[of p1 ts] None show ?thesis by (simp add: p2_def)
    qed
  next
    case (Some s)
    with lt show ?thesis by (simp add: p2_def)
  qed
  with advanceP_ge[of p2 ts] have "pos < p3" by (simp add: p3_def)
  with eq that show thesis by blast
qed

lemma parseStatementsLoop_all:
  assumes Q: "\<And>i st j. parseStatement ts i = Inr (Some st, j) \<Longrightarrow> Q st"
  shows "parseStatementsLoop ts pos acc = Inr (b, p) \<Longrightarrow> \<forall>x\<in>set acc. Q x \<Longrightarrow> \<forall>x\<in>set b. Q x"
proof (induction "length ts - pos" arbitrary: pos acc rule: less_induct)
  case less
  show ?case
  proof (cases "isAtEnd ts pos")
    case True
    from parseStatementsLoop_stop[OF True] less.prems show ?thesis by simp
  next
    case ne: False
    then have lt: "pos < length ts" by (rule not_end_lt)
    show ?thesis
    proof (cases "check ts pos NEWLINE")
      case True
      from parseStatementsLoop_newline[OF ne True] less.prems(1)
      have "parseStatementsLoop ts (pos + 1) acc = Inr (b, p)" by simp
      moreover from lt have "length ts - (pos + 1) < length ts - pos" by simp
      ultimately show ?thesis using less.hyps less.prems(2) by blast
    next
      case nl: False
      from ne nl less.prems(1) obtain stmt p1 where st: "parseStatement ts pos = Inr (stmt, p1)"
        by (subst (asm) parseStatementsLoop.simps) (auto simp: isAtEnd_def split: sum.splits)
      from parseStatementsLoop_statement[OF ne nl st, of acc] obtain p3 where
        eq: "parseStatementsLoop ts pos acc =
               parseStatementsLoop ts p3 (case stmt of Some s \<Rightarrow> acc @ [s] | None \<Rightarrow> acc)"
        and p3: "pos < p3" by blast
      have "\<forall>x\<in>set (case stmt of Some s \<Rightarrow> acc @ [s] | None \<Rightarrow> acc). Q x"
        using less.prems(2) Q[of pos _ p1] st by (auto split: option.splits)
      moreover from p3 lt have "length ts - p3 < length ts - pos" by simp
      moreover from eq less.prems(1)
      have "parseStatementsLoop ts p3 (case stmt of Some s \<Rightarrow> acc @ [s] | None \<Rightarrow> acc)
              = Inr (b, p)" by simp
      ultimately show ?thesis using less.hyps by blast
    qed
  qed
qed

text \<open>The loop only appends to the statements collected so far.\<close>

lemma parseStatementsLoop_prefix:
  "parseStatementsLoop ts pos acc = Inr (b, p) \<Longrightarrow> \<exists>rest. b = acc @ rest"
proof (induction "length ts - pos" arbitrary: pos acc rule: less_induct)
  case less
  show ?case
  proof (cases "isAtEnd ts pos")
    case True
    from parseStatementsLoop_stop[OF True] less.prems show ?thesis by simp
  next
    case ne: False
    then have lt: "pos < length ts" by (rule not_end_lt)
    show ?thesis
    proof (cases "check ts pos NEWLINE")
      case True
      from parseStatementsLoop_newline[OF ne True] less.prems(1)
      have "parseStatementsLoop ts (pos + 1) acc = Inr (b, p)" by simp
      moreover from lt have "length ts - (pos + 1) < length ts - pos" by simp
      ultimately show ?thesis using less.hyps by blast
    next
      case nl: False
      from ne nl less.prems(1) obtain stmt p1 where st: "parseStatement ts pos = Inr (stmt, p1)"
        by (subst (asm) parseStatementsLoop.simps) (auto simp: isAtEnd_def split: sum.splits)
      from parseStatementsLoop_statement[OF ne nl st, of acc] obtain p3 where
        eq: "parseStatementsLoop ts pos acc =
               parseStatementsLoop ts p3 (case stmt of Some s \<Rightarrow> acc @ [s] | None \<Rightarrow> acc)"
        and p3: "pos < p3" by blast
      from p3 lt have "length ts - p3 < length ts - pos" by simp
      moreover from eq less.prems(1)
      have "parseStatementsLoop ts p3 (case stmt of Some s \<Rightarrow> acc @ [s] | None \<Rightarrow> acc)
              = Inr (b, p)" by simp
      ultimately have "\<exists>rest. b = (case stmt of Some s \<Rightarrow> acc @ [s] | None \<Rightarrow> acc) @ rest"
        using less.hyps by blast
      then show ?thesis by (cases stmt) auto
    qed
  qed
qed

text \<open>
  Every statement node of a program that \<open>parse\<close> returns was returned by
  \<open>parseStatement\<close>, at some cursor into the tokens of the input.
\<close>

lemma parse_Inr:
  "parse s = Inr prog \<Longrightarrow>
     \<exists>body p. parseStatementsLoop (tokenize s) 0 [] = Inr (body, p) \<and> prog = Program body None"
  by (auto simp: parse_def parseStatements_def Let_def getNodePosition_def
           split: sum.splits Thrown.splits)

lemma program_nodes:
  assumes "parse s = Inr prog" and "n \<in> set (program_statements prog)"
  shows "\<exists>i j. parseStatement (tokenize s) i = Inr (Some n, j)"
proof -
  let ?ts = "tokenize s"
  let ?Q = "\<lambda>x. \<forall>n\<in>set (statements_of x). \<exists>i j. parseStatement ?ts i = Inr (Some n, j)"
  from parse_Inr[OF assms(1)] obtain body p where
    b: "parseStatementsLoop ?ts 0 [] = Inr (body, p)" and prog: "prog = Program body None"
    by blast
  have "\<forall>x\<in>set body. ?Q x"
    by (rule parseStatementsLoop_all[where Q = ?Q, OF _ b]) (auto dest: statement_nodes)
  with assms(2) prog show ?thesis by (auto simp: program_statements_def)
qed

subsection \<open>Pipelines\<close>

lemma parsePipelineLoop_length:
  "parsePipelineLoop ts pos cs = Inr (cs', p) \<Longrightarrow> length cs \<le> length cs'"
proof (induction ts pos cs rule: parsePipelineLoop.induct)
  case (1 ts pos commands)
  show ?case
  proof (cases "check ts pos PIPE")
    case True
    with "1.prems" obtain c q where
      c: "parseCommand ts (snd (advanceP ts pos)) = Inr (c, q)" and
      rest: "parsePipelineLoop ts q (commands @ [c]) = Inr (cs', p)"
      by (subst (asm) parsePipelineLoop.simps) (auto split: sum.splits)
    from "1.IH"[OF True c refl rest] show ?thesis by simp
  next
    case False
    with "1.prems" show ?thesis by (subst (asm) parsePipelineLoop.simps) simp
  qed
qed

lemma parsePipeline_Pipeline:
  "parsePipeline ts pos = Inr (Pipeline cs pp, p) \<Longrightarrow> 2 \<le> length cs \<and> pp = None"
  by (auto simp: parsePipeline_def getNodePosition_def split: sum.splits if_splits
           dest!: parsePipelineLoop_length)

lemma parseStatement_Pipeline:
  assumes "parseStatement ts pos = Inr (Some (Pipeline cs pp), p)"
  shows "2 \<le> length cs \<and> pp = None"
proof -
  from parseStatement_Inr[OF assms]
  have "parsePipeline ts pos = Inr (Pipeline cs pp, p)"
    by (auto elim!: parseConditional_Inr parseLoop_Inr parseFunction_Inr
             simp: parseVariableAssignment_def Let_def
             split: sum.splits prod.splits option.splits)
  then show ?thesis by (rule parsePipeline_Pipeline)
qed


subsection \<open>The commands and the expressions of a statement\<close>

lemma parsePipelineLoop_commands:
  "parsePipelineLoop ts pos acc = Inr (cs, p) \<Longrightarrow>
     \<forall>c\<in>set acc. \<exists>i j. parseCommand ts i = Inr (c, j) \<Longrightarrow>
     \<forall>c\<in>set cs. \<exists>i j. parseCommand ts i = Inr (c, j)"
proof (induction ts pos acc rule: parsePipelineLoop.induct)
  case (1 ts pos commands)
  show ?case
  proof (cases "check ts pos PIPE")
    case True
    with "1.prems"(1) obtain c q where
      c: "parseCommand ts (snd (advanceP ts pos)) = Inr (c, q)" and
      rest: "parsePipelineLoop ts q (commands @ [c]) = Inr (cs, p)"
      by (subst (asm) parsePipelineLoop.simps) (auto split: sum.splits)
    from c "1.prems"(2) have "\<forall>c\<in>set (commands @ [c]). \<exists>i j. parseCommand ts i = Inr (c, j)"
      by auto
    from "1.IH"[OF True c refl rest this] show ?thesis .
  next
    case False
    with "1.prems" show ?thesis by (subst (asm) parsePipelineLoop.simps) simp
  qed
qed

lemma parsePipelineLoop_single:
  assumes "parsePipelineLoop ts pos [c] = Inr (cs, p)" and "length cs = 1"
  shows "cs = [c] \<and> p = pos"
proof (cases "check ts pos PIPE")
  case True
  with assms(1) obtain c' q where
    "parsePipelineLoop ts q ([c] @ [c']) = Inr (cs, p)"
    by (subst (asm) parsePipelineLoop.simps) (auto split: sum.splits)
  from parsePipelineLoop_length[OF this] assms(2) show ?thesis by simp
next
  case False
  with assms(1) show ?thesis by (subst (asm) parsePipelineLoop.simps) simp
qed

lemma parsePipeline_Inr:
  assumes "parsePipeline ts i = Inr (st, j)"
  obtains (single) c where "st = CommandStmt c" "parseCommand ts i = Inr (c, j)"
    | (pipeline) cs c p1 where "st = Pipeline cs None" "parseCommand ts i = Inr (c, p1)"
        "parsePipelineLoop ts p1 [c] = Inr (cs, j)"
proof -
  from assms obtain c p1 cs where
    c: "parseCommand ts i = Inr (c, p1)" and l: "parsePipelineLoop ts p1 [c] = Inr (cs, j)"
    and st: "st = (if length cs = 1 then CommandStmt (cs ! 0)
                   else Pipeline cs (getNodePosition ts j None))"
    by (auto simp: parsePipeline_def split: sum.splits if_splits)
  show thesis
  proof (cases "length cs = 1")
    case True
    from parsePipelineLoop_single[OF l True] st c True show thesis by (auto intro: single)
  next
    case False
    with st c l show thesis by (auto simp: getNodePosition_def intro: pipeline)
  qed
qed

lemma parseLoopHeader_Inr:
  assumes "parseLoopHeader ts pos kind = Inr ((variable, iterable, condition), p)"
  obtains e q where "parseExpression ts q = Inr (e, p)"
    "(iterable = Some e \<and> condition = None) \<or> (iterable = None \<and> condition = Some e)"
  using assms
  by (auto simp: parseLoopHeader_def split: if_splits sum.splits prod.splits option.splits)

lemma parseVariableAssignment_Inr:
  assumes "parseVariableAssignment ts pos = Inr (st, p)"
  obtains token :: Token and p2 v where
    "parseExpression ts p2 = Inr (v, p)"
    "st = VariableAssignment (tok_value token) v
            (getNodePosition ts p (map_option tok_position (currentToken ts pos)))"
proof -
  note eq = assms[unfolded parseVariableAssignment_def Let_def]
  from eq obtain token p1 where c1: "advanceP ts pos = (Some token, p1)"
    by (auto split: prod.splits option.splits)
  from eq c1 obtain t2 p2 where c2: "consume ts p1 WORD (''Expected '' @ quoted ''='') = Inr (t2, p2)"
    by (auto split: sum.splits)
  from eq c1 c2 obtain v p3 where c3: "parseExpression ts p2 = Inr (v, p3)"
    by (auto split: sum.splits)
  from eq c1 c2 c3 have
    "st = VariableAssignment (tok_value token) v
            (getNodePosition ts p (map_option tok_position (currentToken ts pos)))"
    and "p = p3" by auto
  with c3 that[of p2 v token] show thesis by simp
qed

text \<open>The commands and the expressions of a statement were returned by their methods.\<close>

lemma parseStatement_commands:
  assumes "parseStatement ts i = Inr (Some n, j)" and "c \<in> set (statement_commands n)"
  shows "\<exists>i' j'. parseCommand ts i' = Inr (c, j')"
proof -
  from parseStatement_Inr[OF assms(1)]
  consider (cond) "parseConditional ts i = Inr (n, j)"
    | (loop) "parseLoop ts i = Inr (n, j)"
    | (func) "parseFunction ts i = Inr (n, j)"
    | (assign) "parseVariableAssignment ts i = Inr (n, j)"
    | (pipe) "parsePipeline ts i = Inr (n, j)"
    by blast
  then show ?thesis
  proof cases
    case cond
    with assms(2) show ?thesis by (auto elim!: parseConditional_Inr)
  next
    case loop
    with assms(2) show ?thesis by (auto elim!: parseLoop_Inr)
  next
    case func
    with assms(2) show ?thesis by (auto elim!: parseFunction_Inr)
  next
    case assign
    with assms(2) show ?thesis by (auto elim!: parseVariableAssignment_Inr)
  next
    case pipe
    then show ?thesis
    proof (cases rule: parsePipeline_Inr)
      case (single c')
      with assms(2) show ?thesis by auto
    next
      case (pipeline cs c' p1)
      from parsePipelineLoop_commands[OF pipeline(3)] pipeline(2)
      have "\<forall>c\<in>set cs. \<exists>i j. parseCommand ts i = Inr (c, j)" by auto
      with pipeline(1) assms(2) show ?thesis by simp
    qed
  qed
qed

lemma parseStatement_expressions:
  assumes "parseStatement ts i = Inr (Some n, j)" and "e \<in> set (statement_expressions n)"
  shows "\<exists>i' j'. parseExpression ts i' = Inr (e, j')"
proof -
  from parseStatement_Inr[OF assms(1)]
  consider (cond) "parseConditional ts i = Inr (n, j)"
    | (loop) "parseLoop ts i = Inr (n, j)"
    | (func) "parseFunction ts i = Inr (n, j)"
    | (assign) "parseVariableAssignment ts i = Inr (n, j)"
    | (pipe) "parsePipeline ts i = Inr (n, j)"
    by blast
  then show ?thesis
  proof cases
    case cond
    then obtain c tb eb where
      "parseExpression ts (i + 1) = Inr (c, i + 2)" and
      "n = Conditional c tb eb (getNodePosition ts j (map_option tok_position (currentToken ts i)))"
      by (rule parseConditional_Inr)
    with assms(2) show ?thesis by auto
  next
    case loop
    then obtain token :: Token and p1 variable iterable condition p2 b where
      h: "parseLoopHeader ts p1 (tok_value token) = Inr ((variable, iterable, condition), p2)" and
      n: "n = Loop (tok_value token) condition variable iterable b
            (getNodePosition ts j (map_option tok_position (currentToken ts i)))"
      by (rule parseLoop_Inr)
    from h obtain e' q where "parseExpression ts q = Inr (e', p2)"
      "(iterable = Some e' \<and> condition = None) \<or> (iterable = None \<and> condition = Some e')"
      by (rule parseLoopHeader_Inr)
    with n assms(2) show ?thesis by auto
  next
    case func
    with assms(2) show ?thesis by (auto elim!: parseFunction_Inr)
  next
    case assign
    then obtain token :: Token and p2 v where
      "parseExpression ts p2 = Inr (v, j)" and
      "n = VariableAssignment (tok_value token) v
              (getNodePosition ts j (map_option tok_position (currentToken ts i)))"
      by (rule parseVariableAssignment_Inr)
    with assms(2) show ?thesis by fastforce
  next
    case pipe
    with assms(2) show ?thesis by (auto elim!: parsePipeline_Inr)
  qed
qed

subsection \<open>The token sequence of an input\<close>

lemma tokenizeLoop_step:
  "position t < length (input t) \<Longrightarrow> nextToken t = (r, t') \<Longrightarrow>
     tokenizeLoop t acc = tokenizeLoop t' (case r of Some tok \<Rightarrow> acc @ [tok] | None \<Rightarrow> acc)"
  by (subst tokenizeLoop.simps) (simp split: option.splits)

lemma tokenizeLoop_stop:
  "\<not> position t < length (input t) \<Longrightarrow> tokenizeLoop t acc = acc @ [createToken t EOF [] None]"
  by (subst tokenizeLoop.simps) simp

text \<open>Induction over the turns of the scanner's loop.\<close>

lemma tokenizeLoop_invariant:
  assumes inv: "I t acc"
    and stop: "\<And>t acc. I t acc \<Longrightarrow> \<not> position t < length (input t) \<Longrightarrow>
                 P (acc @ [createToken t EOF [] None])"
    and step: "\<And>t acc r t'. I t acc \<Longrightarrow> position t < length (input t) \<Longrightarrow>
                 nextToken t = (r, t') \<Longrightarrow>
                 I t' (case r of Some tok \<Rightarrow> acc @ [tok] | None \<Rightarrow> acc)"
  shows "P (tokenizeLoop t acc)"
  using inv
proof (induction "length (input t) - position t" arbitrary: t acc rule: less_induct)
  case less
  show ?case
  proof (cases "position t < length (input t)")
    case False
    from stop[OF less.prems False] tokenizeLoop_stop[OF False] show ?thesis by simp
  next
    case True
    obtain r t' where nt: "nextToken t = (r, t')" by (cases "nextToken t")
    from nextToken_input[OF nt] nextToken_progress[OF nt True] True
    have "length (input t') - position t' < length (input t) - position t" by simp
    from less.hyps[OF this step[OF less.prems True nt]] tokenizeLoop_step[OF True nt]
    show ?thesis by simp
  qed
qed

lemma tokenize_last: "tokenize s \<noteq> [] \<and> tok_type (last (tokenize s)) = EOF"
  unfolding tokenize_def
  by (rule tokenizeLoop_invariant[where I = "\<lambda>t acc. True"
        and P = "\<lambda>xs. xs \<noteq> [] \<and> tok_type (last xs) = EOF"])
     (simp_all add: createToken_def)

lemma tokenize_all:
  assumes "\<And>t tok t'. nextToken t = (Some tok, t') \<Longrightarrow> Q tok"
    and "\<And>t. Q (createToken t EOF [] None)"
  shows "\<forall>tok\<in>set (tokenize s). Q tok"
  unfolding tokenize_def
proof (rule tokenizeLoop_invariant[where I = "\<lambda>t acc. \<forall>tok\<in>set acc. Q tok"
         and P = "\<lambda>xs. \<forall>tok\<in>set xs. Q tok"])
  fix t acc r t'
  assume "\<forall>tok\<in>set acc. Q tok" and "nextToken t = (r, t')"
  with assms(1) show "\<forall>tok\<in>set (case r of Some tok \<Rightarrow> acc @ [tok] | None \<Rightarrow> acc). Q tok"
    by (auto split: option.splits)
qed (simp_all add: assms(2))

text \<open>The type and the text of what each reader returns.\<close>

lemma readComment_type: "readComment t = (tok, t') \<Longrightarrow> tok_type tok = COMMENT"
  by (auto simp: readComment_def createToken_def Let_def split: prod.splits)

lemma readQuotedString_type: "readQuotedString q t = (tok, t') \<Longrightarrow> tok_type tok = QUOTED_STRING"
  by (auto simp: readQuotedString_def createToken_def Let_def split: prod.splits)

lemma readVariable_type: "readVariable t = (tok, t') \<Longrightarrow> tok_type tok = VARIABLE"
  by (auto simp: readVariable_def createToken_def Let_def split: prod.splits)

lemma readSingle_type: "readSingle t sp c ty = (tok, t') \<Longrightarrow> tok_type tok = ty"
  by (auto simp: readSingle_def createToken_def Let_def)

lemma readOperator_type:
  "readOperator t sp c d sg = (tok, t') \<Longrightarrow> tok_type tok = d \<or> tok_type tok = sg"
  by (auto simp: readOperator_def createToken_def Let_def split: if_splits)

lemma readWord_type:
  "readWord t = (tok, t') \<Longrightarrow>
     tok_type tok = WORD \<or> getKeywordType (tok_value tok) = Some (tok_type tok)"
  by (auto simp: readWord_def createToken_def Let_def split: if_splits prod.splits option.splits)

lemma getKeywordType_FOR: "getKeywordType v = Some FOR \<Longrightarrow> v = ''for''"
  by (simp add: getKeywordType_def split: if_splits)

lemma getKeywordType_WHILE: "getKeywordType v = Some WHILE \<Longrightarrow> v = ''while''"
  by (simp add: getKeywordType_def split: if_splits)

definition loop_keywords_ok :: "Token \<Rightarrow> bool" where
  "loop_keywords_ok tok =
     ((tok_type tok = FOR \<longrightarrow> tok_value tok = ''for'')
      \<and> (tok_type tok = WHILE \<longrightarrow> tok_value tok = ''while''))"

lemma nextToken_loop_keywords: "nextToken t = (Some tok, t') \<Longrightarrow> loop_keywords_ok tok"
  unfolding nextToken_def Let_def loop_keywords_ok_def
  by (auto split: if_splits prod.splits
           dest!: readComment_type readQuotedString_type readVariable_type readSingle_type
                  readOperator_type readWord_type
           dest: getKeywordType_FOR getKeywordType_WHILE)

lemma tokenize_loop_keywords: "tok \<in> set (tokenize s) \<Longrightarrow> loop_keywords_ok tok"
  using tokenize_all[where Q = loop_keywords_ok and s = s, OF nextToken_loop_keywords]
  by (simp add: loop_keywords_ok_def createToken_def)


subsection \<open>Simple commands\<close>

lemma check_iff: "check ts i ty \<longleftrightarrow> i < length ts \<and> tok_type (ts ! i) = ty"
  by (simp add: check_def currentToken_def)

text \<open>
  The tokens \<open>i, \<dots>, j - 1\<close> of \<open>ts\<close> are a simple command, and token \<open>j\<close> ends it: a
  \<open>WORD\<close>, then \<open>WORD\<close> and \<open>QUOTED_STRING\<close> tokens only, and token \<open>j\<close> is neither.
\<close>

definition simple_command_at :: "Token list \<Rightarrow> nat \<Rightarrow> nat \<Rightarrow> bool" where
  "simple_command_at ts i j \<longleftrightarrow>
     i < j \<and> j < length ts \<and> tok_type (ts ! i) = WORD
     \<and> (\<forall>k\<in>set [Suc i..<j]. tok_type (ts ! k) = WORD \<or> tok_type (ts ! k) = QUOTED_STRING)
     \<and> tok_type (ts ! j) \<noteq> WORD \<and> tok_type (ts ! j) \<noteq> QUOTED_STRING"

text \<open>The \<open>Command\<close> node for it: the text of the first token, and the texts of the others.\<close>

definition command_node :: "Token list \<Rightarrow> nat \<Rightarrow> nat \<Rightarrow> Command" where
  "command_node ts i j =
     Command (tok_value (ts ! i)) (map tok_value (take (j - Suc i) (drop (Suc i) ts)))
       (getNodePosition ts j (Some (tok_position (ts ! i))))"

lemma parseArgs_run:
  assumes "j < length ts"
    and "tok_type (ts ! j) \<noteq> WORD" "tok_type (ts ! j) \<noteq> QUOTED_STRING"
  shows "i \<le> j \<Longrightarrow>
         \<forall>k. i \<le> k \<and> k < j \<longrightarrow> tok_type (ts ! k) = WORD \<or> tok_type (ts ! k) = QUOTED_STRING \<Longrightarrow>
         parseArgs ts i acc = Inr (acc @ map tok_value (take (j - i) (drop i ts)), j)"
proof (induction "j - i" arbitrary: i acc)
  case 0
  with assms show ?case by (subst parseArgs.simps) (simp add: check_iff)
next
  case (Suc n)
  then have lt: "i < j" by simp
  with Suc.prems(2) have ty: "tok_type (ts ! i) = WORD \<or> tok_type (ts ! i) = QUOTED_STRING"
    by simp
  with lt assms(1) have chk: "check ts i WORD \<or> check ts i QUOTED_STRING"
    by (simp add: check_iff)
  then have ne: "\<not> isAtEnd ts i" by (auto simp: check_not_end)
  from Suc.hyps(2) have n: "n = j - Suc i" by simp
  from lt Suc.prems(2) have
    "\<forall>k. Suc i \<le> k \<and> k < j \<longrightarrow> tok_type (ts ! k) = WORD \<or> tok_type (ts ! k) = QUOTED_STRING"
    by simp
  from Suc.hyps(1)[OF n _ this, of "acc @ [tok_value (ts ! i)]"] lt
  have "parseArgs ts (Suc i) (acc @ [tok_value (ts ! i)]) =
          Inr (acc @ [tok_value (ts ! i)] @ map tok_value (take (j - Suc i) (drop (Suc i) ts)), j)"
    by simp
  moreover from lt assms(1) have "take (j - i) (drop i ts) = ts ! i # take (j - Suc i) (drop (Suc i) ts)"
    by (metis Cons_nth_drop_Suc Suc_diff_Suc less_trans take_Suc_Cons)
  ultimately show ?case
    using chk ne by (subst parseArgs.simps) (simp add: advanceP_not_end)
qed

lemma parseCommand_simple:
  assumes "simple_command_at ts i j"
  shows "parseCommand ts i = Inr (command_node ts i j, j)"
proof -
  from assms have lt: "i < j" "j < length ts" and w: "tok_type (ts ! i) = WORD"
    and run: "\<forall>k. Suc i \<le> k \<and> k < j \<longrightarrow> tok_type (ts ! k) = WORD \<or> tok_type (ts ! k) = QUOTED_STRING"
    and stop: "tok_type (ts ! j) \<noteq> WORD" "tok_type (ts ! j) \<noteq> QUOTED_STRING"
    by (auto simp: simple_command_at_def)
  from lt w have chk: "check ts i WORD" by (simp add: check_iff)
  then have ne: "\<not> isAtEnd ts i" by (simp add: check_not_end)
  from lt have "Suc i \<le> j" by simp
  from parseArgs_run[OF lt(2) stop this run, of "[]"]
  have "parseArgs ts (Suc i) [] = Inr (map tok_value (take (j - Suc i) (drop (Suc i) ts)), j)"
    by simp
  with chk ne lt show ?thesis
    by (simp add: parseCommand_def command_node_def advanceP_not_end currentToken_def)
qed

lemma parsePipelineLoop_pipe:
  assumes "check ts a PIPE" and "parseCommand ts (a + 1) = Inr (c, b)"
  shows "parsePipelineLoop ts a cs = parsePipelineLoop ts b (cs @ [c])"
  using assms by (subst parsePipelineLoop.simps) (simp add: advanceP_not_end check_not_end)

lemma parsePipelineLoop_stop:
  "\<not> check ts a PIPE \<Longrightarrow> parsePipelineLoop ts a cs = Inr (cs, a)"
  by (subst parsePipelineLoop.simps) simp

text \<open>A statement that starts with a \<open>WORD\<close> not followed by the text \<open>=\<close> is a pipeline.\<close>

lemma parseStatement_word:
  assumes "check ts i WORD" and "\<not> isVariableAssignment ts i"
  shows "parseStatement ts i =
           (case parsePipeline ts i of Inl e \<Rightarrow> Inl e | Inr (s, p) \<Rightarrow> Inr (Some s, p))"
  using assms by (subst parseStatement.simps) (auto simp: check_iff)

text \<open>A program that is one statement, which ends at the end of the input.\<close>

lemma parse_single_statement:
  assumes st: "parseStatement (tokenize s) 0 = Inr (Some stmt, c)"
    and eof: "tok_type (tokenize s ! c) = EOF" and c: "c < length (tokenize s)"
    and first: "tok_type (tokenize s ! 0) \<noteq> NEWLINE" "tok_type (tokenize s ! 0) \<noteq> EOF"
  shows "parse s = Inr (Program [stmt] None)"
proof -
  let ?ts = "tokenize s"
  from first c have ne: "\<not> isAtEnd ?ts 0" and nl: "\<not> check ?ts 0 NEWLINE"
    by (auto simp: isAtEnd_def check_iff)
  from eof c have end_c: "isAtEnd ?ts c" and sep: "\<not> check ?ts c SEMICOLON" "\<not> check ?ts c NEWLINE"
    by (auto simp: isAtEnd_def check_iff)
  from ne nl st sep have "parseStatementsLoop ?ts 0 [] = parseStatementsLoop ?ts c [stmt]"
    by (subst parseStatementsLoop.simps) (auto simp: isAtEnd_def)
  with parseStatementsLoop_stop[OF end_c] show ?thesis
    by (simp add: parse_def parseStatements_def getNodePosition_def)
qed

lemma parse_pipeline3:
  assumes A: "simple_command_at (tokenize s) 0 a" and pa: "tok_type (tokenize s ! a) = PIPE"
    and B: "simple_command_at (tokenize s) (a + 1) b" and pb: "tok_type (tokenize s ! b) = PIPE"
    and C: "simple_command_at (tokenize s) (b + 1) c" and eof: "tok_type (tokenize s ! c) = EOF"
    and eq: "tok_value (tokenize s ! 1) \<noteq> ''=''"
  shows "parse s =
           Inr (Program
                  [Pipeline [command_node (tokenize s) 0 a, command_node (tokenize s) (a + 1) b,
                             command_node (tokenize s) (b + 1) c] None] None)"
proof -
  let ?ts = "tokenize s"
  let ?cs = "[command_node ?ts 0 a, command_node ?ts (a + 1) b, command_node ?ts (b + 1) c]"
  from A B C have lt: "a < length ?ts" "b < length ?ts" "c < length ?ts" and w: "tok_type (?ts ! 0) = WORD"
    by (auto simp: simple_command_at_def)
  from lt pa pb eof have k: "check ?ts a PIPE" "check ?ts b PIPE" "\<not> check ?ts c PIPE"
    by (auto simp: check_iff)
  have "parsePipelineLoop ?ts a [command_node ?ts 0 a] = Inr (?cs, c)"
    using parsePipelineLoop_pipe[OF k(1) parseCommand_simple[OF B]]
          parsePipelineLoop_pipe[OF k(2) parseCommand_simple[OF C]]
          parsePipelineLoop_stop[OF k(3)]
    by simp
  with parseCommand_simple[OF A]
  have "parsePipeline ?ts 0 = Inr (Pipeline ?cs None, c)"
    by (simp add: parsePipeline_def getNodePosition_def)
  moreover from w lt have "check ?ts 0 WORD" by (auto simp: check_iff)
  moreover from eq have "\<not> isVariableAssignment ?ts 0" by (simp add: isVariableAssignment_def)
  ultimately have "parseStatement ?ts 0 = Inr (Some (Pipeline ?cs None), c)"
    by (simp add: parseStatement_word)
  from parse_single_statement[OF this eof lt(3)] w show ?thesis by simp
qed

lemma parse_single_command:
  assumes A: "simple_command_at (tokenize s) 0 a" and eof: "tok_type (tokenize s ! a) = EOF"
    and eq: "tok_value (tokenize s ! 1) \<noteq> ''=''"
  shows "parse s = Inr (Program [CommandStmt (command_node (tokenize s) 0 a)] None)"
proof -
  let ?ts = "tokenize s"
  from A have lt: "a < length ?ts" and w: "tok_type (?ts ! 0) = WORD"
    by (auto simp: simple_command_at_def)
  from lt eof have k: "\<not> check ?ts a PIPE" by (auto simp: check_iff)
  from parseCommand_simple[OF A] parsePipelineLoop_stop[OF k]
  have "parsePipeline ?ts 0 = Inr (CommandStmt (command_node ?ts 0 a), a)"
    by (simp add: parsePipeline_def)
  moreover from w lt have "check ?ts 0 WORD" by (auto simp: check_iff)
  moreover from eq have "\<not> isVariableAssignment ?ts 0" by (simp add: isVariableAssignment_def)
  ultimately have "parseStatement ?ts 0 = Inr (Some (CommandStmt (command_node ?ts 0 a)), a)"
    by (simp add: parseStatement_word)
  from parse_single_statement[OF this eof lt] w show ?thesis by simp
qed

text \<open>
  A statement that starts with a \<open>WORD\<close> followed by a \<open>WORD\<close> with the text \<^verbatim>\<open>=\<close> is an
  assignment: the value is the expression at the third token.
\<close>

lemma parseStatement_assignment:
  assumes len: "2 < length ts" and w0: "tok_type (ts ! 0) = WORD"
    and w1: "tok_type (ts ! 1) = WORD" and eq: "tok_value (ts ! 1) = ''=''"
  shows "parseStatement ts 0 =
           (case parseExpression ts 2 of
              Inl e \<Rightarrow> Inl e
            | Inr (v, p) \<Rightarrow>
                Inr (Some (VariableAssignment (tok_value (ts ! 0)) v
                             (getNodePosition ts p (Some (tok_position (ts ! 0))))), p))"
proof -
  from len w0 w1 have k: "check ts 0 WORD" "check ts 1 WORD" by (auto simp: check_iff)
  then have ne: "\<not> isAtEnd ts 0" "\<not> isAtEnd ts 1" by (auto simp: check_not_end)
  from k len eq have va: "isVariableAssignment ts 0" by (simp add: isVariableAssignment_def)
  from k ne len have "parseVariableAssignment ts 0 =
           (case parseExpression ts 2 of
              Inl e \<Rightarrow> Inl e
            | Inr (v, p) \<Rightarrow>
                Inr (VariableAssignment (tok_value (ts ! 0)) v
                             (getNodePosition ts p (Some (tok_position (ts ! 0)))), p))"
    using advanceP_not_end[OF ne(1)] advanceP_not_end[OF ne(2)]
    by (auto simp: parseVariableAssignment_def consume_def currentToken_def numeral_2_eq_2
             split: sum.splits)
  with va k show ?thesis
    by (subst parseStatement.simps) (auto simp: check_iff split: sum.splits)
qed

text \<open>
  When the token after the \<open>=\<close> starts no expression, \<^verbatim>\<open>parseExpression\<close> throws there, and
  \<open>parse\<close> throws the same error.
\<close>

lemma parse_assignment_no_value:
  assumes A: "simple_command_at (tokenize s) 0 2"
    and w1: "tok_type (tokenize s ! 1) = WORD" and eq: "tok_value (tokenize s ! 1) = ''=''"
    and nv: "tok_type (tokenize s ! 2) \<noteq> VARIABLE"
  shows "parse s =
           Inl (ParseError ''Expected expression'' (Some (tok_position (tokenize s ! 2))))"
proof -
  let ?ts = "tokenize s"
  from A have len: "2 < length ?ts" and w0: "tok_type (?ts ! 0) = WORD"
    and stop: "tok_type (?ts ! 2) \<noteq> WORD" "tok_type (?ts ! 2) \<noteq> QUOTED_STRING"
    by (auto simp: simple_command_at_def)
  from stop nv len have "parseExpression ?ts 2 =
      Inl (ThrownParseError (ParseError ''Expected expression'' (Some (tok_position (?ts ! 2)))))"
    by (simp add: parseExpression_def check_iff throwParseError_def currentToken_def)
  with parseStatement_assignment[OF len w0 w1 eq]
  have st: "parseStatement ?ts 0 =
      Inl (ThrownParseError (ParseError ''Expected expression'' (Some (tok_position (?ts ! 2)))))"
    by simp
  from len w0 have ne: "\<not> isAtEnd ?ts 0" and nl: "\<not> check ?ts 0 NEWLINE"
    by (auto simp: isAtEnd_def check_iff)
  from ne nl st have "parseStatementsLoop ?ts 0 [] =
      Inl (ThrownParseError (ParseError ''Expected expression'' (Some (tok_position (?ts ! 2)))))"
    by (subst parseStatementsLoop.simps) (auto simp: isAtEnd_def)
  then show ?thesis by (simp add: parse_def parseStatements_def)
qed

text \<open>
  When a \<open>WORD\<close> or a \<open>QUOTED_STRING\<close> follows the \<open>=\<close>, the first statement of the program is
  the assignment of that one token.
\<close>

lemma parse_assignment_first:
  assumes A: "simple_command_at (tokenize s) 0 a" and a: "2 < a"
    and w1: "tok_type (tokenize s ! 1) = WORD" and eq: "tok_value (tokenize s ! 1) = ''=''"
    and p: "parse s = Inr prog"
  shows "\<exists>rest. prog =
           Program
             (VariableAssignment (tok_value (tokenize s ! 0))
                (Literal (tok_value (tokenize s ! 2)) (tok_type (tokenize s ! 2) = QUOTED_STRING)
                   (Some (tok_position (tokenize s ! 2))))
                (getNodePosition (tokenize s) 3 (Some (tok_position (tokenize s ! 0)))) # rest)
             None"
proof -
  let ?ts = "tokenize s"
  let ?va = "VariableAssignment (tok_value (?ts ! 0))
                (Literal (tok_value (?ts ! 2)) (tok_type (?ts ! 2) = QUOTED_STRING)
                   (Some (tok_position (?ts ! 2))))
                (getNodePosition ?ts 3 (Some (tok_position (?ts ! 0))))"
  from A a have len: "2 < length ?ts" and w0: "tok_type (?ts ! 0) = WORD"
    and t2: "tok_type (?ts ! 2) = WORD \<or> tok_type (?ts ! 2) = QUOTED_STRING"
    by (auto simp: simple_command_at_def)
  from t2 len have k2: "check ?ts 2 WORD \<or> check ?ts 2 QUOTED_STRING" by (auto simp: check_iff)
  then have "\<not> isAtEnd ?ts 2" by (auto simp: check_not_end)
  from k2 advanceP_not_end[OF this]
  have "parseExpression ?ts 2 =
          Inr (Literal (tok_value (?ts ! 2)) (tok_type (?ts ! 2) = QUOTED_STRING)
                 (Some (tok_position (?ts ! 2))), 3)"
    by (auto simp: parseExpression_def)
  with parseStatement_assignment[OF len w0 w1 eq]
  have st: "parseStatement ?ts 0 = Inr (Some ?va, 3)" by simp
  from len w0 have ne: "\<not> isAtEnd ?ts 0" and nl: "\<not> check ?ts 0 NEWLINE"
    by (auto simp: isAtEnd_def check_iff)
  from parseStatementsLoop_statement[OF ne nl st, of "[]"] obtain p3 where
    l: "parseStatementsLoop ?ts 0 [] = parseStatementsLoop ?ts p3 [?va]" by auto
  from parse_Inr[OF p] obtain body q where
    b: "parseStatementsLoop ?ts 0 [] = Inr (body, q)" and prog: "prog = Program body None"
    by blast
  from b l have "parseStatementsLoop ?ts p3 [?va] = Inr (body, q)" by simp
  from parseStatementsLoop_prefix[OF this] prog show ?thesis by auto
qed


text \<open>Two scripts to run the general statements on.\<close>

definition nested_script :: string where
  "nested_script =
     ''function f() {'' @ [CHR 0x0A] @ ''while x do'' @ [CHR 0x0A] @ ''ls | wc'' @ [CHR 0x0A]
       @ ''done'' @ [CHR 0x0A] @ ''}''"

definition nested_program :: Program where
  "nested_program =
     Program
       [FunctionDeclaration ''f''
         [Loop ''while''
           (Some (Literal ''x'' False (Some \<lparr>start = 21, end' = 22, line = 2, column = 7\<rparr>)))
           None None
           [Pipeline
             [Command ''ls'' [] (Some \<lparr>start = 26, end' = 30, line = 3, column = 1\<rparr>),
              Command ''wc'' [] (Some \<lparr>start = 31, end' = 34, line = 3, column = 6\<rparr>)]
             None]
           (Some \<lparr>start = 15, end' = 39, line = 2, column = 1\<rparr>)]
         (Some \<lparr>start = 0, end' = 40, line = 1, column = 1\<rparr>)]
       None"

lemma parse_nested_script: "parse nested_script = Inr nested_program"
  by (simp add: nested_script_def nested_program_def tok_eval parse_eval)

lemma nested_program_statements:
  "program_statements nested_program =
     [FunctionDeclaration ''f''
         [Loop ''while''
           (Some (Literal ''x'' False (Some \<lparr>start = 21, end' = 22, line = 2, column = 7\<rparr>)))
           None None
           [Pipeline
             [Command ''ls'' [] (Some \<lparr>start = 26, end' = 30, line = 3, column = 1\<rparr>),
              Command ''wc'' [] (Some \<lparr>start = 31, end' = 34, line = 3, column = 6\<rparr>)]
             None]
           (Some \<lparr>start = 15, end' = 39, line = 2, column = 1\<rparr>)]
         (Some \<lparr>start = 0, end' = 40, line = 1, column = 1\<rparr>),
      Loop ''while''
           (Some (Literal ''x'' False (Some \<lparr>start = 21, end' = 22, line = 2, column = 7\<rparr>)))
           None None
           [Pipeline
             [Command ''ls'' [] (Some \<lparr>start = 26, end' = 30, line = 3, column = 1\<rparr>),
              Command ''wc'' [] (Some \<lparr>start = 31, end' = 34, line = 3, column = 6\<rparr>)]
             None]
           (Some \<lparr>start = 15, end' = 39, line = 2, column = 1\<rparr>),
      Pipeline
             [Command ''ls'' [] (Some \<lparr>start = 26, end' = 30, line = 3, column = 1\<rparr>),
              Command ''wc'' [] (Some \<lparr>start = 31, end' = 34, line = 3, column = 6\<rparr>)]
             None]"
  by (simp add: nested_program_def program_statements_def statements_of.simps)

lemma tokenize_pipeline3:
  "tokenize ''cat f | grep p | sort'' =
    [\<lparr>tok_type = WORD, tok_value = ''cat'',
       tok_position = \<lparr>start = 0, end' = 3, line = 1, column = 1\<rparr>\<rparr>,
     \<lparr>tok_type = WORD, tok_value = ''f'',
       tok_position = \<lparr>start = 4, end' = 5, line = 1, column = 5\<rparr>\<rparr>,
     \<lparr>tok_type = PIPE, tok_value = ''|'',
       tok_position = \<lparr>start = 6, end' = 7, line = 1, column = 7\<rparr>\<rparr>,
     \<lparr>tok_type = WORD, tok_value = ''grep'',
       tok_position = \<lparr>start = 8, end' = 12, line = 1, column = 9\<rparr>\<rparr>,
     \<lparr>tok_type = WORD, tok_value = ''p'',
       tok_position = \<lparr>start = 13, end' = 14, line = 1, column = 14\<rparr>\<rparr>,
     \<lparr>tok_type = PIPE, tok_value = ''|'',
       tok_position = \<lparr>start = 15, end' = 16, line = 1, column = 16\<rparr>\<rparr>,
     \<lparr>tok_type = WORD, tok_value = ''sort'',
       tok_position = \<lparr>start = 17, end' = 21, line = 1, column = 18\<rparr>\<rparr>,
     \<lparr>tok_type = EOF, tok_value = [],
       tok_position = \<lparr>start = 21, end' = 21, line = 1, column = 22\<rparr>\<rparr>]"
  by (simp add: tok_eval)

lemma tokenize_ls_la:
  "tokenize ''ls -la'' =
    [\<lparr>tok_type = WORD, tok_value = ''ls'',
       tok_position = \<lparr>start = 0, end' = 2, line = 1, column = 1\<rparr>\<rparr>,
     \<lparr>tok_type = WORD, tok_value = ''-la'',
       tok_position = \<lparr>start = 3, end' = 6, line = 1, column = 4\<rparr>\<rparr>,
     \<lparr>tok_type = EOF, tok_value = [],
       tok_position = \<lparr>start = 6, end' = 6, line = 1, column = 7\<rparr>\<rparr>]"
  by (simp add: tok_eval)

lemma tokenize_assignment_pipe:
  "tokenize ''x = | wc | sort'' =
    [\<lparr>tok_type = WORD, tok_value = ''x'',
       tok_position = \<lparr>start = 0, end' = 1, line = 1, column = 1\<rparr>\<rparr>,
     \<lparr>tok_type = WORD, tok_value = ''='',
       tok_position = \<lparr>start = 2, end' = 3, line = 1, column = 3\<rparr>\<rparr>,
     \<lparr>tok_type = PIPE, tok_value = ''|'',
       tok_position = \<lparr>start = 4, end' = 5, line = 1, column = 5\<rparr>\<rparr>,
     \<lparr>tok_type = WORD, tok_value = ''wc'',
       tok_position = \<lparr>start = 6, end' = 8, line = 1, column = 7\<rparr>\<rparr>,
     \<lparr>tok_type = PIPE, tok_value = ''|'',
       tok_position = \<lparr>start = 9, end' = 10, line = 1, column = 10\<rparr>\<rparr>,
     \<lparr>tok_type = WORD, tok_value = ''sort'',
       tok_position = \<lparr>start = 11, end' = 15, line = 1, column = 12\<rparr>\<rparr>,
     \<lparr>tok_type = EOF, tok_value = [],
       tok_position = \<lparr>start = 15, end' = 15, line = 1, column = 16\<rparr>\<rparr>]"
  by (simp add: tok_eval)

lemma tokenize_assignment_words:
  "tokenize ''x = y z | wc | sort'' =
    [\<lparr>tok_type = WORD, tok_value = ''x'',
       tok_position = \<lparr>start = 0, end' = 1, line = 1, column = 1\<rparr>\<rparr>,
     \<lparr>tok_type = WORD, tok_value = ''='',
       tok_position = \<lparr>start = 2, end' = 3, line = 1, column = 3\<rparr>\<rparr>,
     \<lparr>tok_type = WORD, tok_value = ''y'',
       tok_position = \<lparr>start = 4, end' = 5, line = 1, column = 5\<rparr>\<rparr>,
     \<lparr>tok_type = WORD, tok_value = ''z'',
       tok_position = \<lparr>start = 6, end' = 7, line = 1, column = 7\<rparr>\<rparr>,
     \<lparr>tok_type = PIPE, tok_value = ''|'',
       tok_position = \<lparr>start = 8, end' = 9, line = 1, column = 9\<rparr>\<rparr>,
     \<lparr>tok_type = WORD, tok_value = ''wc'',
       tok_position = \<lparr>start = 10, end' = 12, line = 1, column = 11\<rparr>\<rparr>,
     \<lparr>tok_type = PIPE, tok_value = ''|'',
       tok_position = \<lparr>start = 13, end' = 14, line = 1, column = 14\<rparr>\<rparr>,
     \<lparr>tok_type = WORD, tok_value = ''sort'',
       tok_position = \<lparr>start = 15, end' = 19, line = 1, column = 16\<rparr>\<rparr>,
     \<lparr>tok_type = EOF, tok_value = [],
       tok_position = \<lparr>start = 19, end' = 19, line = 1, column = 20\<rparr>\<rparr>]"
  by (simp add: tok_eval)

lemma parse_assignment_words:
  "parse ''x = y z | wc | sort'' =
     Inr (Program
       [VariableAssignment ''x''
          (Literal ''y'' False (Some \<lparr>start = 4, end' = 5, line = 1, column = 5\<rparr>))
          (Some \<lparr>start = 0, end' = 7, line = 1, column = 1\<rparr>),
        Pipeline
          [Command ''z'' [] (Some \<lparr>start = 6, end' = 9, line = 1, column = 7\<rparr>),
           Command ''wc'' [] (Some \<lparr>start = 10, end' = 14, line = 1, column = 11\<rparr>),
           Command ''sort'' [] (Some \<lparr>start = 15, end' = 19, line = 1, column = 16\<rparr>)]
          None]
       None)"
  by (simp add: tok_eval parse_eval)

subsection \<open>The \<^verbatim>\<open>for\<close> loop and the place of \<^verbatim>\<open>do\<close>\<close>

text \<open>
  The script of the repository's test \<^verbatim>\<open>should parse for loop\<close>
  (\<^verbatim>\<open>src/__tests__/parser.test.ts\<close>): the loop header, and \<^verbatim>\<open>do\<close> on the next line.
\<close>

definition repository_test_for_loop :: string where
  "repository_test_for_loop =
     [CHR 0x0A] @ ''        for item in list'' @ [CHR 0x0A] @ ''        do'' @ [CHR 0x0A]
       @ ''          echo $item'' @ [CHR 0x0A] @ ''        done'' @ [CHR 0x0A] @ ''      ''"

text \<open>
  The test expects a program whose first statement is a loop of kind \<^verbatim>\<open>for\<close> with the
  variable \<^verbatim>\<open>item\<close>. After the iterable, \<^verbatim>\<open>parseLoop\<close> calls \<^verbatim>\<open>consume(TokenType.DO)\<close>
  without skipping \<open>NEWLINE\<close> tokens, where the loops over statements skip them: the
  current token is the \<open>NEWLINE\<close> that ends the header line, and \<^verbatim>\<open>consume\<close> throws.
\<close>

lemma repository_test_for_loop_raises:
  "parse repository_test_for_loop =
     Inl (ParseError (''Expected '' @ quoted ''do'')
            (Some \<lparr>start = 25, end' = 26, line = 2, column = 25\<rparr>))"
  by (simp add: repository_test_for_loop_def tok_eval parse_eval)

text \<open>
  With \<^verbatim>\<open>do\<close> on the line of the header the loop is built. Its body is the command
  \<^verbatim>\<open>echo\<close> with no argument: \<^verbatim>\<open>parseCommand\<close> takes \<open>WORD\<close> and \<open>QUOTED_STRING\<close> tokens as
  arguments, and the body loop drops the \<open>VARIABLE\<close> token \<^verbatim>\<open>$item\<close>.
\<close>

lemma for_loop_do_on_header_line:
  "parse (''for item in list do'' @ [CHR 0x0A] @ ''echo $item'' @ [CHR 0x0A] @ ''done'') =
     Inr (Program
       [Loop ''for'' None (Some ''item'')
         (Some (Literal ''list'' False (Some \<lparr>start = 12, end' = 16, line = 1, column = 13\<rparr>)))
         [CommandStmt
           (Command ''echo'' [] (Some \<lparr>start = 20, end' = 30, line = 2, column = 1\<rparr>))]
         (Some \<lparr>start = 0, end' = 35, line = 1, column = 1\<rparr>)]
       None)"
  by (simp add: tok_eval parse_eval)

subsection \<open>The builder throws nothing but a \<open>ParseError\<close>\<close>

lemma consume_no_TypeError: "consume ts pos ty msg \<noteq> Inl (ThrownTypeError q)"
  by (simp add: consume_def throwParseError_def)

lemma consume_token: "ty \<noteq> EOF \<Longrightarrow> consume ts pos ty msg \<noteq> Inr (None, p)"
  by (auto simp: consume_def advanceP_not_end check_not_end)

lemma parseExpression_no_TypeError: "parseExpression ts pos \<noteq> Inl (ThrownTypeError q)"
  by (auto simp: parseExpression_def throwParseError_def advanceP_not_end check_not_end)

lemma parseLoopHeader_no_TypeError: "parseLoopHeader ts pos kind \<noteq> Inl (ThrownTypeError q)"
  using consume_no_TypeError[of ts _ WORD _ q] parseExpression_no_TypeError[of ts _ q]
        consume_token[of WORD ts]
  by (auto simp: parseLoopHeader_def split: sum.splits prod.splits option.splits)

lemma parseArgs_no_TypeError: "parseArgs ts pos acc \<noteq> Inl (ThrownTypeError q)"
proof (induction ts pos acc rule: parseArgs.induct)
  case (1 ts pos args)
  show ?case
  proof (cases "check ts pos WORD \<or> check ts pos QUOTED_STRING")
    case True
    then have ne: "\<not> isAtEnd ts pos" by (auto simp: check_not_end)
    with True "1.IH" show ?thesis
      by (subst parseArgs.simps) (auto simp: advanceP_not_end)
  next
    case False
    then show ?thesis by (subst parseArgs.simps) simp
  qed
qed

lemma parseCommand_no_TypeError: "parseCommand ts pos \<noteq> Inl (ThrownTypeError q)"
  using parseArgs_no_TypeError[of ts _ "[]" q]
  by (auto simp: parseCommand_def Let_def throwParseError_def advanceP_not_end check_not_end
           split: sum.splits)

lemma parsePipelineLoop_no_TypeError: "parsePipelineLoop ts pos cs \<noteq> Inl (ThrownTypeError q)"
proof (induction ts pos cs rule: parsePipelineLoop.induct)
  case (1 ts pos commands)
  show ?case
  proof (cases "check ts pos PIPE")
    case True
    show ?thesis
    proof (cases "parseCommand ts (snd (advanceP ts pos))")
      case (Inl e)
      with True parseCommand_no_TypeError[of ts "snd (advanceP ts pos)" q] show ?thesis
        by (subst parsePipelineLoop.simps) auto
    next
      case (Inr r)
      obtain c p where r: "r = (c, p)" by (cases r)
      with True Inr "1.IH"[OF True Inr, of c p] show ?thesis
        by (subst parsePipelineLoop.simps) simp
    qed
  next
    case False
    then show ?thesis by (subst parsePipelineLoop.simps) simp
  qed
qed

lemma parsePipeline_no_TypeError: "parsePipeline ts pos \<noteq> Inl (ThrownTypeError q)"
  using parseCommand_no_TypeError[of ts pos q] parsePipelineLoop_no_TypeError[of ts _ _ q]
  by (auto simp: parsePipeline_def split: sum.splits)

lemma parseVariableAssignment_no_TypeError:
  "check ts pos WORD \<Longrightarrow> parseVariableAssignment ts pos \<noteq> Inl (ThrownTypeError q)"
  using consume_no_TypeError[of ts _ WORD _ q] parseExpression_no_TypeError[of ts _ q]
  by (auto simp: parseVariableAssignment_def Let_def advanceP_not_end check_not_end
           split: sum.splits)

text \<open>An error of a body loop is the error of a statement in it.\<close>

lemma parseBody_error:
  "parseBody stops ts pos acc = Inl e \<Longrightarrow>
     \<exists>i. pos \<le> i \<and> i < length ts \<and> parseStatement ts i = Inl e"
proof (induction "length ts - pos" arbitrary: pos acc rule: less_induct)
  case less
  show ?case
  proof (cases "list_ex (check ts pos) stops \<or> isAtEnd ts pos")
    case True
    from parseBody_stop[OF True] less.prems show ?thesis by simp
  next
    case False
    then have ns: "\<not> list_ex (check ts pos) stops" and ne: "\<not> isAtEnd ts pos" by simp_all
    from ne have lt: "pos < length ts" by (rule not_end_lt)
    show ?thesis
    proof (cases "check ts pos NEWLINE")
      case True
      from parseBody_newline[OF ns ne True] less.prems
      have "parseBody stops ts (pos + 1) acc = Inl e" by simp
      moreover from lt have "length ts - (pos + 1) < length ts - pos" by simp
      ultimately obtain i where "pos + 1 \<le> i" "i < length ts" "parseStatement ts i = Inl e"
        using less.hyps by blast
      then show ?thesis by (intro exI[of _ i]) simp
    next
      case nl: False
      note eq = less.prems[unfolded parseBody_statement[OF ns ne nl]]
      show ?thesis
      proof (cases "parseStatement ts pos")
        case (Inl e')
        with eq lt show ?thesis by (intro exI[of _ pos]) simp
      next
        case (Inr r)
        obtain stmt p where r: "r = (stmt, p)" by (cases r)
        from parseStatement_progress[of ts pos stmt p] Inr r
        have le: "pos \<le> p" and gt: "stmt \<noteq> None \<longrightarrow> pos < p" by simp_all
        define p' where "p' = (case stmt of None \<Rightarrow> snd (advanceP ts p) | Some s \<Rightarrow> p)"
        define acc' where "acc' = (case stmt of None \<Rightarrow> acc | Some s \<Rightarrow> acc @ [s])"
        from eq Inr r have rec: "parseBody stops ts p' acc' = Inl e"
          by (simp add: p'_def acc'_def split: option.splits)
        have "pos < p'"
        proof (cases stmt)
          case None
          show ?thesis
          proof (cases "p = pos")
            case True
            with ne None show ?thesis by (simp add: p'_def advanceP_not_end)
          next
            case False
            with le advanceP_ge[of p ts] None show ?thesis by (simp add: p'_def)
          qed
        next
          case (Some s)
          with gt show ?thesis by (simp add: p'_def)
        qed
        with lt have "length ts - p' < length ts - pos" by simp
        from less.hyps[OF this rec] obtain i where
          "p' \<le> i" "i < length ts" "parseStatement ts i = Inl e" by blast
        with \<open>pos < p'\<close> show ?thesis by (intro exI[of _ i]) simp
      qed
    qed
  qed
qed

lemma parseConditional_TypeError:
  assumes "parseConditional ts pos = Inl (ThrownTypeError q)"
  shows "\<exists>stops p. pos < p \<and> pos < length ts \<and> parseBody stops ts p [] = Inl (ThrownTypeError q)"
proof -
  note eq = assms[unfolded parseConditional.simps Let_def]
  note noc = consume_no_TypeError[of ts _ _ _ q]
  from eq noc obtain t1 p1 where c1: "consume ts pos IF (''Expected '' @ quoted ''if'') = Inr (t1, p1)"
    by (cases "consume ts pos IF (''Expected '' @ quoted ''if'')") auto
  from eq c1 parseExpression_no_TypeError[of ts p1 q] obtain c p2 where
    c2: "parseExpression ts p1 = Inr (c, p2)"
    by (cases "parseExpression ts p1") auto
  from eq c1 c2 noc obtain t3 p3 where
    c3: "consume ts p2 THEN (''Expected '' @ quoted ''then'') = Inr (t3, p3)"
    by (cases "consume ts p2 THEN (''Expected '' @ quoted ''then'')") auto
  from consume_Inr[OF c1] parseExpression_Inr[OF c2] consume_Inr[OF c3]
  have p3: "pos < p3" and lt: "pos < length ts" by simp_all
  show ?thesis
  proof (cases "parseBody [ELSE, FI] ts p3 []")
    case (Inl e)
    with eq c1 c2 c3 have "e = ThrownTypeError q" by simp
    with Inl p3 lt show ?thesis by blast
  next
    case (Inr r)
    obtain tb p4 where r: "r = (tb, p4)" by (cases r)
    from parseBody_progress[of "[ELSE, FI]" ts p3 "[]" tb p4] Inr r have p4: "p3 \<le> p4" by simp
    show ?thesis
    proof (cases "check ts p4 ELSE")
      case True
      show ?thesis
      proof (cases "parseBody [FI] ts (snd (advanceP ts p4)) []")
        case (Inl e)
        with eq c1 c2 c3 Inr r True have "e = ThrownTypeError q" by simp
        moreover from p3 p4 advanceP_ge[of p4 ts] have "pos < snd (advanceP ts p4)" by simp
        ultimately show ?thesis using Inl lt by blast
      next
        case b: (Inr r')
        obtain eb p5 where r': "r' = (eb, p5)" by (cases r')
        from eq c1 c2 c3 Inr r True b r' noc[of p5 FI] show ?thesis
          by (auto split: sum.splits)
      qed
    next
      case False
      from eq c1 c2 c3 Inr r False noc[of p4 FI] show ?thesis
        by (auto split: sum.splits)
    qed
  qed
qed

lemma parseLoop_TypeError:
  assumes "parseLoop ts pos = Inl (ThrownTypeError q)" and "check ts pos FOR \<or> check ts pos WHILE"
  shows "\<exists>stops p. pos < p \<and> pos < length ts \<and> parseBody stops ts p [] = Inl (ThrownTypeError q)"
proof -
  from assms(2) have ne: "\<not> isAtEnd ts pos" and lt: "pos < length ts"
    by (auto simp: check_not_end dest: check_lt)
  note eq = assms(1)[unfolded parseLoop.simps Let_def advanceP_not_end[OF ne], simplified]
  note noc = consume_no_TypeError[of ts _ _ _ q]
  from eq parseLoopHeader_no_TypeError[of ts "pos + 1" _ q] obtain variable iterable condition p2
    where c2: "parseLoopHeader ts (Suc pos) (tok_value (ts ! pos))
                 = Inr ((variable, iterable, condition), p2)"
    by (cases "parseLoopHeader ts (Suc pos) (tok_value (ts ! pos))") auto
  from eq c2 noc obtain t3 p3 where
    c3: "consume ts p2 DO (''Expected '' @ quoted ''do'') = Inr (t3, p3)"
    by (cases "consume ts p2 DO (''Expected '' @ quoted ''do'')") auto
  from parseLoopHeader_gt[OF c2] consume_Inr[OF c3] have p3: "pos < p3" by simp
  show ?thesis
  proof (cases "parseBody [DONE] ts p3 []")
    case (Inl e)
    with eq c2 c3 have "e = ThrownTypeError q" by simp
    with Inl p3 lt show ?thesis by blast
  next
    case (Inr r)
    obtain b p4 where r: "r = (b, p4)" by (cases r)
    from eq c2 c3 Inr r noc[of p4 DONE] show ?thesis by (auto split: sum.splits)
  qed
qed

lemma parseFunction_TypeError:
  assumes "parseFunction ts pos = Inl (ThrownTypeError q)"
  shows "\<exists>stops p. pos < p \<and> pos < length ts \<and> parseBody stops ts p [] = Inl (ThrownTypeError q)"
proof -
  note eq = assms[unfolded parseFunction.simps Let_def]
  note noc = consume_no_TypeError[of ts _ _ _ q]
  from eq noc obtain t1 p1 where
    c1: "consume ts pos FUNCTION (''Expected '' @ quoted ''function'') = Inr (t1, p1)"
    by (cases "consume ts pos FUNCTION (''Expected '' @ quoted ''function'')") auto
  from eq c1 noc consume_token[of WORD ts p1] obtain name p2 where
    c2: "consume ts p1 WORD ''Expected function name'' = Inr (Some name, p2)"
    by (cases "consume ts p1 WORD ''Expected function name''") (auto split: option.splits)
  from eq c1 c2 noc obtain t3 p3 where
    c3: "consume ts p2 LPAREN (''Expected '' @ quoted ''('') = Inr (t3, p3)"
    by (cases "consume ts p2 LPAREN (''Expected '' @ quoted ''('')") auto
  from eq c1 c2 c3 noc obtain t4 p4 where
    c4: "consume ts p3 RPAREN (''Expected '' @ quoted '')'') = Inr (t4, p4)"
    by (cases "consume ts p3 RPAREN (''Expected '' @ quoted '')'')") auto
  from eq c1 c2 c3 c4 noc obtain t5 p5 where
    c5: "consume ts p4 LBRACE (''Expected '' @ quoted ''{'') = Inr (t5, p5)"
    by (cases "consume ts p4 LBRACE (''Expected '' @ quoted ''{'')") auto
  from consume_Inr[OF c1] consume_Inr[OF c2] consume_Inr[OF c3] consume_Inr[OF c4]
       consume_Inr[OF c5]
  have p5: "pos < p5" and lt: "pos < length ts" by simp_all
  show ?thesis
  proof (cases "parseBody [RBRACE] ts p5 []")
    case (Inl e)
    with eq c1 c2 c3 c4 c5 have "e = ThrownTypeError q" by simp
    with Inl p5 lt show ?thesis by blast
  next
    case (Inr r)
    obtain b p6 where r: "r = (b, p6)" by (cases r)
    from eq c1 c2 c3 c4 c5 Inr r noc[of p6 RBRACE] show ?thesis by (auto split: sum.splits)
  qed
qed

lemma parseStatement_no_TypeError: "parseStatement ts pos \<noteq> Inl (ThrownTypeError q)"
proof (induction "length ts - pos" arbitrary: pos rule: less_induct)
  case less
  show ?case
  proof
    assume st: "parseStatement ts pos = Inl (ThrownTypeError q)"
    have body: False
      if "pos < p" "pos < length ts" "parseBody stops ts p [] = Inl (ThrownTypeError q)"
      for stops p
    proof -
      from parseBody_error[OF that(3)] obtain i where
        i: "p \<le> i" "i < length ts" "parseStatement ts i = Inl (ThrownTypeError q)" by blast
      with that(1,2) have "length ts - i < length ts - pos" by simp
      from less.hyps[OF this] i(3) show False by simp
    qed
    from st parseVariableAssignment_no_TypeError[of ts pos q] parsePipeline_no_TypeError[of ts pos q]
    consider (cond) "parseConditional ts pos = Inl (ThrownTypeError q)"
      | (loop) "check ts pos FOR \<or> check ts pos WHILE" "parseLoop ts pos = Inl (ThrownTypeError q)"
      | (func) "parseFunction ts pos = Inl (ThrownTypeError q)"
      by (subst (asm) parseStatement.simps)
         (auto split: if_splits sum.splits simp: isVariableAssignment_def)
    then show False
    proof cases
      case cond
      from parseConditional_TypeError[OF this] body show False by blast
    next
      case loop
      from parseLoop_TypeError[OF loop(2,1)] body show False by blast
    next
      case func
      from parseFunction_TypeError[OF this] body show False by blast
    qed
  qed
qed

lemma parseStatementsLoop_no_TypeError:
  "parseStatementsLoop ts pos acc \<noteq> Inl (ThrownTypeError q)"
proof (induction "length ts - pos" arbitrary: pos acc rule: less_induct)
  case less
  show ?case
  proof (cases "isAtEnd ts pos")
    case True
    from parseStatementsLoop_stop[OF True] show ?thesis by simp
  next
    case ne: False
    then have lt: "pos < length ts" by (rule not_end_lt)
    show ?thesis
    proof (cases "check ts pos NEWLINE")
      case True
      from lt have "length ts - (pos + 1) < length ts - pos" by simp
      from less.hyps[OF this] parseStatementsLoop_newline[OF ne True] show ?thesis by simp
    next
      case nl: False
      show ?thesis
      proof (cases "parseStatement ts pos")
        case (Inl e)
        with ne nl parseStatement_no_TypeError[of ts pos q] show ?thesis
          by (subst parseStatementsLoop.simps) (auto simp: isAtEnd_def)
      next
        case (Inr r)
        obtain stmt p1 where r: "r = (stmt, p1)" by (cases r)
        from Inr r have st: "parseStatement ts pos = Inr (stmt, p1)" by simp
        from parseStatementsLoop_statement[OF ne nl st, of acc] obtain p3 where
          eq: "parseStatementsLoop ts pos acc =
                 parseStatementsLoop ts p3 (case stmt of Some s \<Rightarrow> acc @ [s] | None \<Rightarrow> acc)"
          and p3: "pos < p3" by blast
        from p3 lt have "length ts - p3 < length ts - pos" by simp
        from less.hyps[OF this] eq show ?thesis by simp
      qed
    qed
  qed
qed

text \<open>
  So the handler of \<^verbatim>\<open>parse\<close> never wraps anything: an error of \<open>parse\<close> is a
  \<open>ParseError\<close> that the builder threw.
\<close>

lemma parse_Inl:
  "parse s = Inl e \<Longrightarrow> parseStatements (tokenize s) 0 = Inl (ThrownParseError e)"
  using parseStatementsLoop_no_TypeError[of "tokenize s" 0 "[]"]
  by (auto simp: parse_def parseStatements_def Let_def split: sum.splits Thrown.splits)

subsection \<open>Blanks\<close>

lemma skipWhitespace_stop:
  "\<not> (position t < length (input t) \<and> isBlank (current t)) \<Longrightarrow> skipWhitespace t = t"
  by (subst skipWhitespace.simps) auto

section \<open>The claims\<close>

subsection \<open>C1: the for loop of the specification's example\<close>

text \<open>
  C1 at its input \<^verbatim>\<open>for item in list\ndo\necho $item\ndone\<close>: the claim has \<open>parse\<close> return a
  program with one loop of kind \<^verbatim>\<open>for\<close>, and the repository's test
  \<^verbatim>\<open>should parse for loop\<close> expects the same of a script of this shape. The builder returns
  no program: after the iterable \<^verbatim>\<open>list\<close>, \<^verbatim>\<open>parseLoop\<close> demands a \<open>DO\<close> token, the current
  token is the \<open>NEWLINE\<close> at offset 16, and \<^verbatim>\<open>consume\<close> throws a \<^verbatim>\<open>ParseError\<close>.
\<close>

theorem C1_newline_before_do_raises:
  "parse (''for item in list'' @ [CHR 0x0A] @ ''do'' @ [CHR 0x0A] @ ''echo $item''
            @ [CHR 0x0A] @ ''done'') =
     Inl (ParseError (''Expected '' @ quoted ''do'')
            (Some \<lparr>start = 16, end' = 17, line = 1, column = 17\<rparr>))"
  by (simp add: tok_eval parse_eval)

subsection \<open>C2: the lookahead for an assignment\<close>

text \<open>
  C2 at the input \<^verbatim>\<open>echo "="\<close>: the claim has it parsed as a command. The lookahead
  \<^verbatim>\<open>isVariableAssignment\<close> compares the text of the next token only, so the quoted string
  \<^verbatim>\<open>"="\<close> sends the builder into \<^verbatim>\<open>parseVariableAssignment\<close>, whose \<^verbatim>\<open>consume(WORD)\<close>
  then throws at the quoted string.
\<close>

theorem C2_quoted_equals_raises:
  "parse (''echo '' @ [CHR 0x22] @ ''='' @ [CHR 0x22]) =
     Inl (ParseError (''Expected '' @ quoted ''='')
            (Some \<lparr>start = 5, end' = 8, line = 1, column = 6\<rparr>))"
  by (simp add: tok_eval parse_eval)

subsection \<open>C3: pipelines have at least two commands\<close>

text \<open>
  C3 as stated: for an input \<^verbatim>\<open>A | B | C\<close> of three simple commands the single statement
  is a \<open>Pipeline\<close> of the three. It is not for \<^verbatim>\<open>echo = | wc | sort\<close>: the tokens are three
  runs of \<open>WORD\<close> tokens separated by two \<open>PIPE\<close> tokens, each run a simple command
  (\<open>simple_command_at\<close>), but the second token is the \<open>WORD\<close> \<^verbatim>\<open>=\<close>, so \<^verbatim>\<open>parseStatement\<close>
  takes the statement for an assignment, and \<^verbatim>\<open>parseExpression\<close> throws at the \<open>PIPE\<close>
  token after the \<^verbatim>\<open>=\<close>.
\<close>

theorem C3_assignment_form_raises:
  "map tok_type (tokenize ''echo = | wc | sort'') = [WORD, WORD, PIPE, WORD, PIPE, WORD, EOF]
   \<and> simple_command_at (tokenize ''echo = | wc | sort'') 0 2
   \<and> simple_command_at (tokenize ''echo = | wc | sort'') 3 4
   \<and> simple_command_at (tokenize ''echo = | wc | sort'') 5 6
   \<and> parse ''echo = | wc | sort'' =
        Inl (ParseError ''Expected expression''
               (Some \<lparr>start = 7, end' = 8, line = 1, column = 8\<rparr>))"
proof -
  have t: "tokenize ''echo = | wc | sort'' =
    [\<lparr>tok_type = WORD, tok_value = ''echo'',
       tok_position = \<lparr>start = 0, end' = 4, line = 1, column = 1\<rparr>\<rparr>,
     \<lparr>tok_type = WORD, tok_value = ''='',
       tok_position = \<lparr>start = 5, end' = 6, line = 1, column = 6\<rparr>\<rparr>,
     \<lparr>tok_type = PIPE, tok_value = ''|'',
       tok_position = \<lparr>start = 7, end' = 8, line = 1, column = 8\<rparr>\<rparr>,
     \<lparr>tok_type = WORD, tok_value = ''wc'',
       tok_position = \<lparr>start = 9, end' = 11, line = 1, column = 10\<rparr>\<rparr>,
     \<lparr>tok_type = PIPE, tok_value = ''|'',
       tok_position = \<lparr>start = 12, end' = 13, line = 1, column = 13\<rparr>\<rparr>,
     \<lparr>tok_type = WORD, tok_value = ''sort'',
       tok_position = \<lparr>start = 14, end' = 18, line = 1, column = 15\<rparr>\<rparr>,
     \<lparr>tok_type = EOF, tok_value = [],
       tok_position = \<lparr>start = 18, end' = 18, line = 1, column = 19\<rparr>\<rparr>]"
    by (simp add: tok_eval)
  have "parse ''echo = | wc | sort'' =
        Inl (ParseError ''Expected expression''
               (Some \<lparr>start = 7, end' = 8, line = 1, column = 8\<rparr>))"
    by (simp add: tok_eval parse_eval)
  with t show ?thesis by (simp add: simple_command_at_def)
qed

text \<open>
  C3, amended. In every program that \<open>parse\<close> returns, every \<open>Pipeline\<close> node, at any
  depth, has at least two commands. A simple command is a \<open>WORD\<close> token followed by
  \<open>WORD\<close> and \<open>QUOTED_STRING\<close> tokens (\<open>simple_command_at\<close>). When the tokens of the input
  are three simple commands separated by two \<open>PIPE\<close> tokens and the text of the second
  token is not \<^verbatim>\<open>=\<close>, the program is one \<open>Pipeline\<close> of the three commands in their order;
  when they are one simple command and the text of the second token is not \<^verbatim>\<open>=\<close>, the
  program is that \<open>Command\<close> itself, not a \<open>Pipeline\<close> of one. When the second token of
  the input is the \<open>WORD\<close> \<^verbatim>\<open>=\<close>, the first statement is read as an assignment instead: if
  the first simple command ends with the \<^verbatim>\<open>=\<close>, \<open>parse\<close> throws
  \<^verbatim>\<open>ParseError("Expected expression")\<close> at the token after it; if it goes on, the first
  statement of a program that \<open>parse\<close> returns is the \<open>VariableAssignment\<close> of the token
  after the \<^verbatim>\<open>=\<close> to the name that the first token spells.
\<close>

theorem C3_pipeline_length:
  "(parse s = Inr prog \<longrightarrow>
      (\<forall>n\<in>set (program_statements prog). \<forall>cs pp. n = Pipeline cs pp \<longrightarrow> 2 \<le> length cs))
   \<and> (simple_command_at (tokenize s3) 0 a \<and> tok_type (tokenize s3 ! a) = PIPE
        \<and> simple_command_at (tokenize s3) (a + 1) b \<and> tok_type (tokenize s3 ! b) = PIPE
        \<and> simple_command_at (tokenize s3) (b + 1) c \<and> tok_type (tokenize s3 ! c) = EOF
        \<and> tok_value (tokenize s3 ! 1) \<noteq> ''='' \<longrightarrow>
      parse s3 =
        Inr (Program
               [Pipeline [command_node (tokenize s3) 0 a, command_node (tokenize s3) (a + 1) b,
                          command_node (tokenize s3) (b + 1) c] None] None))
   \<and> (simple_command_at (tokenize s1) 0 a1 \<and> tok_type (tokenize s1 ! a1) = EOF
        \<and> tok_value (tokenize s1 ! 1) \<noteq> ''='' \<longrightarrow>
      parse s1 = Inr (Program [CommandStmt (command_node (tokenize s1) 0 a1)] None))
   \<and> (simple_command_at (tokenize s2) 0 2
        \<and> tok_type (tokenize s2 ! 1) = WORD \<and> tok_value (tokenize s2 ! 1) = ''=''
        \<and> tok_type (tokenize s2 ! 2) \<noteq> VARIABLE \<longrightarrow>
      parse s2 =
        Inl (ParseError ''Expected expression'' (Some (tok_position (tokenize s2 ! 2)))))
   \<and> (simple_command_at (tokenize s4) 0 a4 \<and> 2 < a4
        \<and> tok_type (tokenize s4 ! 1) = WORD \<and> tok_value (tokenize s4 ! 1) = ''=''
        \<and> parse s4 = Inr prog4 \<longrightarrow>
      (\<exists>rest. prog4 =
         Program
           (VariableAssignment (tok_value (tokenize s4 ! 0))
              (Literal (tok_value (tokenize s4 ! 2)) (tok_type (tokenize s4 ! 2) = QUOTED_STRING)
                 (Some (tok_position (tokenize s4 ! 2))))
              (getNodePosition (tokenize s4) 3 (Some (tok_position (tokenize s4 ! 0)))) # rest)
           None))"
proof (intro conjI impI ballI allI)
  fix n cs pp
  assume "parse s = Inr prog" and "n \<in> set (program_statements prog)" and "n = Pipeline cs pp"
  with program_nodes obtain i j where
    "parseStatement (tokenize s) i = Inr (Some (Pipeline cs pp), j)" by blast
  then show "2 \<le> length cs" by (simp add: parseStatement_Pipeline)
next
  assume "simple_command_at (tokenize s3) 0 a \<and> tok_type (tokenize s3 ! a) = PIPE
        \<and> simple_command_at (tokenize s3) (a + 1) b \<and> tok_type (tokenize s3 ! b) = PIPE
        \<and> simple_command_at (tokenize s3) (b + 1) c \<and> tok_type (tokenize s3 ! c) = EOF
        \<and> tok_value (tokenize s3 ! 1) \<noteq> ''=''"
  then show "parse s3 =
        Inr (Program
               [Pipeline [command_node (tokenize s3) 0 a, command_node (tokenize s3) (a + 1) b,
                          command_node (tokenize s3) (b + 1) c] None] None)"
    using parse_pipeline3[of s3 a b c] by simp
next
  assume "simple_command_at (tokenize s1) 0 a1 \<and> tok_type (tokenize s1 ! a1) = EOF
        \<and> tok_value (tokenize s1 ! 1) \<noteq> ''=''"
  then show "parse s1 = Inr (Program [CommandStmt (command_node (tokenize s1) 0 a1)] None)"
    using parse_single_command[of s1 a1] by simp
next
  assume "simple_command_at (tokenize s2) 0 2
        \<and> tok_type (tokenize s2 ! 1) = WORD \<and> tok_value (tokenize s2 ! 1) = ''=''
        \<and> tok_type (tokenize s2 ! 2) \<noteq> VARIABLE"
  then show "parse s2 =
        Inl (ParseError ''Expected expression'' (Some (tok_position (tokenize s2 ! 2))))"
    using parse_assignment_no_value[of s2] by simp
next
  assume "simple_command_at (tokenize s4) 0 a4 \<and> 2 < a4
        \<and> tok_type (tokenize s4 ! 1) = WORD \<and> tok_value (tokenize s4 ! 1) = ''=''
        \<and> parse s4 = Inr prog4"
  then show "\<exists>rest. prog4 =
         Program
           (VariableAssignment (tok_value (tokenize s4 ! 0))
              (Literal (tok_value (tokenize s4 ! 2)) (tok_type (tokenize s4 ! 2) = QUOTED_STRING)
                 (Some (tok_position (tokenize s4 ! 2))))
              (getNodePosition (tokenize s4) 3 (Some (tok_position (tokenize s4 ! 0)))) # rest)
           None"
    using parse_assignment_first[of s4 a4 prog4] by simp
qed

theorem C3_pipeline_length_witness:
  "parse nested_script = Inr nested_program
   \<and> (\<exists>cs pp. Pipeline cs pp \<in> set (program_statements nested_program))
   \<and> \<not> (\<exists>cs pp. Pipeline cs pp \<in> set (program_statements nested_program) \<and> length cs < 2)
   \<and> simple_command_at (tokenize ''cat f | grep p | sort'') 0 2
   \<and> simple_command_at (tokenize ''cat f | grep p | sort'') 3 5
   \<and> simple_command_at (tokenize ''cat f | grep p | sort'') 6 7
   \<and> parse ''cat f | grep p | sort'' =
        Inr (Program
               [Pipeline
                  [Command ''cat'' [''f''] (Some \<lparr>start = 0, end' = 7, line = 1, column = 1\<rparr>),
                   Command ''grep'' [''p''] (Some \<lparr>start = 8, end' = 16, line = 1, column = 9\<rparr>),
                   Command ''sort'' [] (Some \<lparr>start = 17, end' = 21, line = 1, column = 18\<rparr>)]
                  None] None)
   \<and> simple_command_at (tokenize ''ls -la'') 0 2
   \<and> parse ''ls -la'' =
        Inr (Program
               [CommandStmt
                  (Command ''ls'' [''-la''] (Some \<lparr>start = 0, end' = 6, line = 1, column = 1\<rparr>))]
               None)
   \<and> simple_command_at (tokenize ''x = | wc | sort'') 0 2
   \<and> tok_type (tokenize ''x = | wc | sort'' ! 1) = WORD
   \<and> tok_value (tokenize ''x = | wc | sort'' ! 1) = ''=''
   \<and> tok_type (tokenize ''x = | wc | sort'' ! 2) = PIPE
   \<and> parse ''x = | wc | sort'' =
        Inl (ParseError ''Expected expression''
               (Some \<lparr>start = 4, end' = 5, line = 1, column = 5\<rparr>))
   \<and> simple_command_at (tokenize ''x = y z | wc | sort'') 0 4
   \<and> tok_type (tokenize ''x = y z | wc | sort'' ! 1) = WORD
   \<and> tok_value (tokenize ''x = y z | wc | sort'' ! 1) = ''=''
   \<and> parse ''x = y z | wc | sort'' =
        Inr (Program
          [VariableAssignment ''x''
             (Literal ''y'' False (Some \<lparr>start = 4, end' = 5, line = 1, column = 5\<rparr>))
             (Some \<lparr>start = 0, end' = 7, line = 1, column = 1\<rparr>),
           Pipeline
             [Command ''z'' [] (Some \<lparr>start = 6, end' = 9, line = 1, column = 7\<rparr>),
              Command ''wc'' [] (Some \<lparr>start = 10, end' = 14, line = 1, column = 11\<rparr>),
              Command ''sort'' [] (Some \<lparr>start = 15, end' = 19, line = 1, column = 16\<rparr>)]
             None]
          None)"
  using C3_pipeline_length[of nested_script nested_program "''cat f | grep p | sort''" 2 5 7
          "''ls -la''" 2 "''x = | wc | sort''" "''x = y z | wc | sort''" 4
          "Program
          [VariableAssignment ''x''
             (Literal ''y'' False (Some \<lparr>start = 4, end' = 5, line = 1, column = 5\<rparr>))
             (Some \<lparr>start = 0, end' = 7, line = 1, column = 1\<rparr>),
           Pipeline
             [Command ''z'' [] (Some \<lparr>start = 6, end' = 9, line = 1, column = 7\<rparr>),
              Command ''wc'' [] (Some \<lparr>start = 10, end' = 14, line = 1, column = 11\<rparr>),
              Command ''sort'' [] (Some \<lparr>start = 15, end' = 19, line = 1, column = 16\<rparr>)]
             None]
          None"]
  by (auto simp: parse_nested_script nested_program_statements tokenize_pipeline3
        tokenize_ls_la tokenize_assignment_pipe tokenize_assignment_words
        parse_assignment_words simple_command_at_def upt_conv_Cons command_node_def
        getNodePosition_def currentToken_def)

subsection \<open>C4: the scanner and the builder terminate\<close>

lemma tokenize_length: "length (tokenize s) \<le> length s + 1"
  unfolding tokenize_def
proof (rule tokenizeLoop_invariant[where
         I = "\<lambda>t acc. length acc + (length (input t) - position t) \<le> length s"
         and P = "\<lambda>xs. length xs \<le> length s + 1"])
  show "length ([]::Token list) + (length (input (newTokenizer s)) - position (newTokenizer s))
          \<le> length s"
    by (simp add: newTokenizer_def)
next
  fix t :: Tokenizer and acc :: "Token list"
  assume "length acc + (length (input t) - position t) \<le> length s"
  then show "length (acc @ [createToken t EOF [] None]) \<le> length s + 1" by simp
next
  fix t t' :: Tokenizer and acc :: "Token list" and r
  assume I: "length acc + (length (input t) - position t) \<le> length s"
    and run: "position t < length (input t)" and nt: "nextToken t = (r, t')"
  from nextToken_input[OF nt] nextToken_progress[OF nt run] run
  have "length (input t') - position t' < length (input t) - position t" by simp
  with I run show "length (case r of Some tok \<Rightarrow> acc @ [tok] | None \<Rightarrow> acc)
                 + (length (input t') - position t') \<le> length s"
    by (cases r) auto
qed

lemma statement_turn_progress:
  assumes "\<not> isAtEnd ts pos" and "parseStatement ts pos = Inr (r, p)"
  shows "pos < (case r of Some st \<Rightarrow> p | None \<Rightarrow> snd (advanceP ts p))"
proof (cases r)
  case None
  from parseStatement_progress[OF assms(2)] have le: "pos \<le> p" by simp
  show ?thesis
  proof (cases "p = pos")
    case True
    with assms(1) None show ?thesis by (simp add: advanceP_not_end)
  next
    case False
    with le advanceP_ge[of p ts] None show ?thesis by simp
  qed
next
  case (Some st)
  with parseStatement_progress[OF assms(2)] show ?thesis by simp
qed

text \<open>
  C4: for every input, \<open>tokenize\<close> returns a token sequence of at most one token per
  character and one more, whose last token is \<open>EOF\<close>, and \<open>parse\<close> returns a program or
  raises a \<open>ParseError\<close>, one that the builder threw (the handler of \<^verbatim>\<open>parse\<close> has no other
  fault to wrap). Both are total functions here: their loops are defined by well-founded
  recursion, on the number of characters or of tokens left. The two facts that make them
  terminate are part of the statement: a step of the scanner on an unfinished input
  moves its cursor forward, and a turn of a statement loop (the statement parsed and,
  when there was none, the forced \<^verbatim>\<open>advance()\<close>) moves the builder's cursor forward unless
  it throws.
\<close>

theorem C4_tokenize_and_parse_terminate:
  "tokenize s \<noteq> [] \<and> tok_type (last (tokenize s)) = EOF
   \<and> length (tokenize s) \<le> length s + 1
   \<and> (position t < length (input t) \<longrightarrow> position t < position (snd (nextToken t)))
   \<and> (\<not> isAtEnd ts pos \<and> parseStatement ts pos = Inr (r, p) \<longrightarrow>
        pos < (case r of Some st \<Rightarrow> p | None \<Rightarrow> snd (advanceP ts p)))
   \<and> ((\<exists>prog. parse s = Inr prog)
        \<or> (\<exists>e. parse s = Inl e \<and> parseStatements (tokenize s) 0 = Inl (ThrownParseError e)))"
proof (intro conjI impI)
  show "tokenize s \<noteq> []" and "tok_type (last (tokenize s)) = EOF"
    using tokenize_last[of s] by simp_all
  show "length (tokenize s) \<le> length s + 1" by (rule tokenize_length)
  show "position t < position (snd (nextToken t))" if "position t < length (input t)"
    using nextToken_progress[OF _ that, of "fst (nextToken t)" "snd (nextToken t)"] by simp
  show "pos < (case r of Some st \<Rightarrow> p | None \<Rightarrow> snd (advanceP ts p))"
    if "\<not> isAtEnd ts pos \<and> parseStatement ts pos = Inr (r, p)"
    using that statement_turn_progress by blast
  show "(\<exists>prog. parse s = Inr prog)
        \<or> (\<exists>e. parse s = Inl e \<and> parseStatements (tokenize s) 0 = Inl (ThrownParseError e))"
    by (cases "parse s") (auto dest: parse_Inl)
qed

theorem C4_tokenize_and_parse_terminate_witness:
  "tok_type (last (tokenize ''ls -la'')) = EOF
   \<and> length (tokenize ''ls -la'') = 3
   \<and> position (newTokenizer ''ls -la'') < length (input (newTokenizer ''ls -la''))
   \<and> position (newTokenizer ''ls -la'') < position (snd (nextToken (newTokenizer ''ls -la'')))
   \<and> \<not> isAtEnd (tokenize ''ls -la'') 0
   \<and> parseStatement (tokenize ''ls -la'') 0 =
        Inr (Some (CommandStmt
               (Command ''ls'' [''-la''] (Some \<lparr>start = 0, end' = 6, line = 1, column = 1\<rparr>))), 2)
   \<and> (\<exists>prog. parse ''ls -la'' = Inr prog)"
  using C4_tokenize_and_parse_terminate[of "''ls -la''" "newTokenizer ''ls -la''"
          "tokenize ''ls -la''" 0
          "Some (CommandStmt
               (Command ''ls'' [''-la''] (Some \<lparr>start = 0, end' = 6, line = 1, column = 1\<rparr>)))" 2]
  by (simp add: tokenize_ls_la parse_eval) (simp add: tok_eval)


subsection \<open>C5: a conditional without \<^verbatim>\<open>then\<close>\<close>

text \<open>
  C5: \<^verbatim>\<open>parse("if without fi")\<close> raises a \<^verbatim>\<open>ParseError\<close>, and the error carries a
  position: the one of the \<^verbatim>\<open>fi\<close> token, where \<^verbatim>\<open>then\<close> was expected.
\<close>

theorem C5_if_without_fi_raises:
  "parse ''if without fi'' =
     Inl (ParseError (''Expected '' @ quoted ''then'')
            (Some \<lparr>start = 11, end' = 13, line = 1, column = 12\<rparr>))"
  by (simp add: tok_eval parse_eval)

subsection \<open>C6: the position of a node covers its tokens\<close>

text \<open>The ends of the tokens of an input never decrease.\<close>

definition token_end :: "Token \<Rightarrow> nat" where
  "token_end tok = end' (tok_position tok)"

lemma readComment_end: "readComment t = (tok, t') \<Longrightarrow> token_end tok = position t'"
  by (auto simp: readComment_def createToken_def token_end_def Let_def split: prod.splits)

lemma readQuotedString_end: "readQuotedString q t = (tok, t') \<Longrightarrow> token_end tok = position t'"
  by (auto simp: readQuotedString_def createToken_def token_end_def Let_def split: prod.splits)

lemma readVariable_end: "readVariable t = (tok, t') \<Longrightarrow> token_end tok = position t'"
  by (auto simp: readVariable_def createToken_def token_end_def Let_def split: prod.splits)

lemma readSingle_end: "readSingle t sp c ty = (tok, t') \<Longrightarrow> token_end tok = position t'"
  by (auto simp: readSingle_def createToken_def token_end_def Let_def)

lemma readOperator_end: "readOperator t sp c d sg = (tok, t') \<Longrightarrow> token_end tok = position t'"
  by (auto simp: readOperator_def createToken_def token_end_def Let_def split: if_splits)

lemma readWord_end: "readWord t = (tok, t') \<Longrightarrow> token_end tok = position t'"
  by (auto simp: readWord_def createToken_def token_end_def Let_def
           split: if_splits prod.splits)

lemma nextToken_end: "nextToken t = (Some tok, t') \<Longrightarrow> token_end tok = position t'"
  unfolding nextToken_def Let_def
  by (auto split: if_splits prod.splits
           dest: readComment_end readQuotedString_end readVariable_end readSingle_end
                 readOperator_end readWord_end)

lemma nextToken_position_le: "nextToken t = (r, t') \<Longrightarrow> position t \<le> position t'"
proof (cases "position t < length (input t)")
  case True
  assume "nextToken t = (r, t')"
  from nextToken_progress[OF this True] show ?thesis by simp
next
  case False
  assume nt: "nextToken t = (r, t')"
  from False have "skipWhitespace t = t" by (simp add: skipWhitespace_stop)
  with nt False show ?thesis by (simp add: nextToken_def Let_def)
qed

lemma tokenize_ends_sorted: "sorted (map token_end (tokenize s))"
  unfolding tokenize_def
proof (rule tokenizeLoop_invariant[where
         I = "\<lambda>t acc. sorted (map token_end acc) \<and> (\<forall>x\<in>set acc. token_end x \<le> position t)"
         and P = "\<lambda>xs. sorted (map token_end xs)"])
  show "sorted (map token_end []) \<and> (\<forall>x\<in>set []. token_end x \<le> position (newTokenizer s))"
    by simp
next
  fix t :: Tokenizer and acc :: "Token list"
  assume "sorted (map token_end acc) \<and> (\<forall>x\<in>set acc. token_end x \<le> position t)"
  then show "sorted (map token_end (acc @ [createToken t EOF [] None]))"
    by (auto simp: sorted_append createToken_def token_end_def)
next
  fix t t' :: Tokenizer and acc :: "Token list" and r
  assume I: "sorted (map token_end acc) \<and> (\<forall>x\<in>set acc. token_end x \<le> position t)"
    and nt: "nextToken t = (r, t')"
  from nextToken_position_le[OF nt] have le: "position t \<le> position t'" .
  show "sorted (map token_end (case r of Some tok \<Rightarrow> acc @ [tok] | None \<Rightarrow> acc))
        \<and> (\<forall>x\<in>set (case r of Some tok \<Rightarrow> acc @ [tok] | None \<Rightarrow> acc). token_end x \<le> position t')"
  proof (cases r)
    case None
    with I le show ?thesis by auto
  next
    case (Some tok)
    with nt nextToken_end have "token_end tok = position t'" by simp
    with I le Some show ?thesis by (auto simp: sorted_append)
  qed
qed

text \<open>
  What the claim is about: a token sequence that ends with \<open>EOF\<close> and whose ends never
  decrease, as \<open>tokenize\<close> returns it.
\<close>

definition scanned :: "Token list \<Rightarrow> bool" where
  "scanned ts \<longleftrightarrow> ts \<noteq> [] \<and> tok_type (last ts) = EOF \<and> sorted (map token_end ts)"

lemma scanned_tokenize: "scanned (tokenize s)"
  using tokenize_last[of s] tokenize_ends_sorted[of s] by (simp add: scanned_def)

lemma scanned_next:
  assumes "scanned ts" and "check ts pos ty" and "ty \<noteq> EOF"
  shows "pos + 1 < length ts"
proof -
  from assms(2) have lt: "pos < length ts" and ty: "tok_type (ts ! pos) = ty"
    by (simp_all add: check_iff)
  from assms(1) have "tok_type (ts ! (length ts - 1)) = EOF"
    by (auto simp: scanned_def last_conv_nth)
  with ty assms(3) have "pos \<noteq> length ts - 1" by auto
  with lt show ?thesis by simp
qed

lemma scanned_ends:
  "scanned ts \<Longrightarrow> i \<le> j \<Longrightarrow> j < length ts \<Longrightarrow> token_end (ts ! i) \<le> token_end (ts ! j)"
  by (auto simp: scanned_def sorted_iff_nth_mono dest!: spec[of _ i] spec[of _ j])

text \<open>
  The tokens \<open>i, \<dots>, j - 1\<close> were consumed for a node whose position is \<open>popt\<close>: the
  position, when there is one, starts at or before the start of token \<open>i\<close> and ends at or
  after the end of token \<open>j - 1\<close>.
\<close>

definition covers :: "Token list \<Rightarrow> nat \<Rightarrow> nat \<Rightarrow> Position option \<Rightarrow> bool" where
  "covers ts i j popt \<longleftrightarrow>
     i < j \<and> j \<le> length ts
     \<and> (case popt of
          None \<Rightarrow> True
        | Some p \<Rightarrow> start p \<le> start (tok_position (ts ! i))
                    \<and> end' (tok_position (ts ! (j - 1))) \<le> end' p)"

lemma getNodePosition_covers:
  assumes "scanned ts" and "i < j" and "j < length ts"
  shows "covers ts i j (getNodePosition ts j (map_option tok_position (currentToken ts i)))"
proof -
  from assms have i: "currentToken ts i = Some (ts ! i)" and j: "currentToken ts j = Some (ts ! j)"
    by (simp_all add: currentToken_def)
  from scanned_ends[OF assms(1), of "j - 1" j] assms
  have e: "token_end (ts ! (j - 1)) \<le> token_end (ts ! j)" by simp
  show ?thesis
    using assms(2,3) e by (auto simp: covers_def getNodePosition_def i j token_end_def)
qed


lemma parseExpression_covers:
  assumes "parseExpression ts i = Inr (e, j)"
  shows "covers ts i j (expression_position e)"
  using assms
  by (auto simp: parseExpression_def covers_def advanceP_not_end check_not_end check_iff
           split: if_splits)

lemma parseArgs_range:
  assumes "scanned ts"
  shows "pos < length ts \<Longrightarrow> parseArgs ts pos acc = Inr (a, p) \<Longrightarrow> p < length ts"
proof (induction "length ts - pos" arbitrary: pos acc rule: less_induct)
  case less
  show ?case
  proof (cases "check ts pos WORD \<or> check ts pos QUOTED_STRING")
    case True
    then have ne: "\<not> isAtEnd ts pos" and nx: "pos + 1 < length ts"
      using scanned_next[OF assms] by (auto simp: check_not_end)
    from True ne less.prems(2)
    have "parseArgs ts (pos + 1) (acc @ [tok_value (ts ! pos)]) = Inr (a, p)"
      by (subst (asm) parseArgs.simps) (simp add: advanceP_not_end)
    moreover from less.prems(1) have "length ts - (pos + 1) < length ts - pos" by simp
    ultimately show ?thesis using less.hyps nx by blast
  next
    case False
    with less.prems show ?thesis by (subst (asm) parseArgs.simps) simp
  qed
qed

lemma parseCommand_covers:
  assumes sc: "scanned ts" and c: "parseCommand ts i = Inr (c, j)"
  shows "covers ts i j (command_position c) \<and> j < length ts"
proof -
  from c have chk: "check ts i WORD" by (auto simp: parseCommand_def Let_def split: if_splits)
  then have ne: "\<not> isAtEnd ts i" by (simp add: check_not_end)
  from c chk ne obtain args where
    a: "parseArgs ts (i + 1) [] = Inr (args, j)" and
    cn: "c = Command (tok_value (ts ! i)) args
               (getNodePosition ts j (map_option tok_position (currentToken ts i)))"
    by (auto simp: parseCommand_def Let_def advanceP_not_end split: sum.splits)
  from parseArgs_range[OF sc scanned_next[OF sc chk] a] have j: "j < length ts" by simp
  from parseCommand_gt[OF c] have "i < j" .
  from getNodePosition_covers[OF sc this j] cn j show ?thesis by simp
qed

lemma parsePipelineLoop_range:
  assumes "scanned ts"
  shows "parsePipelineLoop ts pos cs = Inr (cs', p) \<Longrightarrow> pos < length ts \<Longrightarrow> p < length ts"
  using assms
proof (induction ts pos cs rule: parsePipelineLoop.induct)
  case (1 ts pos commands)
  note assms = "1.prems"(3)
  show ?case
  proof (cases "check ts pos PIPE")
    case True
    with "1.prems"(1) obtain c q where
      c: "parseCommand ts (snd (advanceP ts pos)) = Inr (c, q)" and
      rest: "parsePipelineLoop ts q (commands @ [c]) = Inr (cs', p)"
      by (subst (asm) parsePipelineLoop.simps) (auto split: sum.splits)
    from parseCommand_covers[OF assms c] have "q < length ts" by simp
    from "1.IH"[OF True c refl rest this assms] show ?thesis .
  next
    case False
    with "1.prems" show ?thesis by (subst (asm) parsePipelineLoop.simps) simp
  qed
qed


text \<open>The position of a statement covers the tokens that \<open>parseStatement\<close> consumed for it.\<close>

lemma parseStatement_covers:
  assumes sc: "scanned ts" and st: "parseStatement ts i = Inr (Some n, j)"
  shows "covers ts i j (statement_position n)"
proof -
  from parseStatement_progress[OF st] have ij: "i < j" by simp
  have node: "covers ts i j (getNodePosition ts j (map_option tok_position (currentToken ts i)))"
    if "check ts (j - 1) ty" "ty \<noteq> EOF" for ty
  proof -
    from scanned_next[OF sc that] ij have "j < length ts" by simp
    from getNodePosition_covers[OF sc ij this] show ?thesis .
  qed
  from parseStatement_Inr[OF st]
  consider (cond) "parseConditional ts i = Inr (n, j)"
    | (loop) "parseLoop ts i = Inr (n, j)"
    | (func) "parseFunction ts i = Inr (n, j)"
    | (assign) "parseVariableAssignment ts i = Inr (n, j)"
    | (pipe) "parsePipeline ts i = Inr (n, j)"
    by blast
  then show ?thesis
  proof cases
    case cond
    then show ?thesis by (rule parseConditional_Inr) (use node[of FI] in simp)
  next
    case loop
    then show ?thesis by (rule parseLoop_Inr) (use node[of DONE] in simp)
  next
    case func
    then show ?thesis by (rule parseFunction_Inr) (use node[of RBRACE] in simp)
  next
    case assign
    then obtain token :: Token and p2 v where
      "parseExpression ts p2 = Inr (v, j)" and
      n: "n = VariableAssignment (tok_value token) v
              (getNodePosition ts j (map_option tok_position (currentToken ts i)))"
      by (rule parseVariableAssignment_Inr)
    then have "check ts (j - 1) WORD \<or> check ts (j - 1) QUOTED_STRING \<or> check ts (j - 1) VARIABLE"
      by (auto simp: parseExpression_def advanceP_not_end check_not_end split: if_splits)
    with node n show ?thesis by auto
  next
    case pipe
    then show ?thesis
    proof (cases rule: parsePipeline_Inr)
      case (single c)
      with parseCommand_covers[OF sc single(2)] show ?thesis by simp
    next
      case (pipeline cs c p1)
      from parseCommand_covers[OF sc pipeline(2)] have "p1 < length ts" by simp
      from parsePipelineLoop_range[OF sc pipeline(3) this] ij pipeline(1) show ?thesis
        by (simp add: covers_def)
    qed
  qed
qed


text \<open>
  C6: in every program that \<open>parse\<close> returns, every node that carries a position covers
  the tokens consumed for it. Every statement node \<open>n\<close> of the tree, at any depth, was
  returned by \<open>parseStatement\<close> at a cursor \<open>i\<close> with the new cursor \<open>j\<close>, so that the tokens
  \<open>i, \<dots>, j - 1\<close> are the ones consumed for it, and its position, if it has one, starts
  at or before the start of token \<open>i\<close> and ends at or after the end of token \<open>j - 1\<close>; the
  same holds of every command of a pipeline, with \<open>parseCommand\<close>, and of every expression
  of a statement (a condition, an iterable, an assigned value), with \<open>parseExpression\<close>.
\<close>

theorem C6_positions_cover_tokens:
  "parse s = Inr prog \<Longrightarrow>
     \<forall>n\<in>set (program_statements prog).
        (\<exists>i j. parseStatement (tokenize s) i = Inr (Some n, j)
               \<and> covers (tokenize s) i j (statement_position n))
        \<and> (\<forall>c\<in>set (statement_commands n).
              \<exists>i j. parseCommand (tokenize s) i = Inr (c, j)
                    \<and> covers (tokenize s) i j (command_position c))
        \<and> (\<forall>e\<in>set (statement_expressions n).
              \<exists>i j. parseExpression (tokenize s) i = Inr (e, j)
                    \<and> covers (tokenize s) i j (expression_position e))"
proof (intro ballI conjI)
  fix n
  assume "parse s = Inr prog" and "n \<in> set (program_statements prog)"
  with program_nodes obtain i j where st: "parseStatement (tokenize s) i = Inr (Some n, j)"
    by blast
  note sc = scanned_tokenize[of s]
  from parseStatement_covers[OF sc st] st
  show "\<exists>i j. parseStatement (tokenize s) i = Inr (Some n, j)
               \<and> covers (tokenize s) i j (statement_position n)"
    by blast
  show "\<exists>i j. parseCommand (tokenize s) i = Inr (c, j)
                    \<and> covers (tokenize s) i j (command_position c)"
    if "c \<in> set (statement_commands n)" for c
    using parseStatement_commands[OF st that] parseCommand_covers[OF sc] by blast
  show "\<exists>i j. parseExpression (tokenize s) i = Inr (e, j)
                    \<and> covers (tokenize s) i j (expression_position e)"
    if "e \<in> set (statement_expressions n)" for e
    using parseStatement_expressions[OF st that] parseExpression_covers by blast
qed

theorem C6_positions_cover_tokens_witness:
  "parse nested_script = Inr nested_program
   \<and> (\<exists>i j. parseStatement (tokenize nested_script) i =
          Inr (Some (Loop ''while''
                 (Some (Literal ''x'' False (Some \<lparr>start = 21, end' = 22, line = 2, column = 7\<rparr>)))
                 None None
                 [Pipeline
                    [Command ''ls'' [] (Some \<lparr>start = 26, end' = 30, line = 3, column = 1\<rparr>),
                     Command ''wc'' [] (Some \<lparr>start = 31, end' = 34, line = 3, column = 6\<rparr>)]
                    None]
                 (Some \<lparr>start = 15, end' = 39, line = 2, column = 1\<rparr>)), j)
        \<and> covers (tokenize nested_script) i j
              (Some \<lparr>start = 15, end' = 39, line = 2, column = 1\<rparr>))
   \<and> (\<exists>i j. parseCommand (tokenize nested_script) i =
          Inr (Command ''wc'' [] (Some \<lparr>start = 31, end' = 34, line = 3, column = 6\<rparr>), j)
        \<and> covers (tokenize nested_script) i j
              (Some \<lparr>start = 31, end' = 34, line = 3, column = 6\<rparr>))
   \<and> (\<exists>i j. parseExpression (tokenize nested_script) i =
          Inr (Literal ''x'' False (Some \<lparr>start = 21, end' = 22, line = 2, column = 7\<rparr>), j)
        \<and> covers (tokenize nested_script) i j
              (Some \<lparr>start = 21, end' = 22, line = 2, column = 7\<rparr>))"
  using C6_positions_cover_tokens[OF parse_nested_script]
  by (simp add: parse_nested_script nested_program_statements)

subsection \<open>C7: an assignment\<close>

text \<open>
  C7: \<^verbatim>\<open>parse("name=john")\<close> returns a program whose only statement is the assignment of
  the unquoted literal \<^verbatim>\<open>john\<close> to \<^verbatim>\<open>name\<close>; the character \<^verbatim>\<open>=\<close> is scanned as a \<^verbatim>\<open>WORD\<close>
  token of one character by the fallback rule of \<^verbatim>\<open>readWord\<close>.
\<close>

theorem C7_name_john:
  "tokenize ''name=john'' ! 1 =
     \<lparr>tok_type = WORD, tok_value = ''='',
        tok_position = \<lparr>start = 4, end' = 5, line = 1, column = 5\<rparr>\<rparr>
   \<and> parse ''name=john'' =
     Inr (Program
            [VariableAssignment ''name''
               (Literal ''john'' False (Some \<lparr>start = 5, end' = 9, line = 1, column = 6\<rparr>))
               (Some \<lparr>start = 0, end' = 9, line = 1, column = 1\<rparr>)]
            None)"
  by (simp add: tok_eval parse_eval)

subsection \<open>C8: a pipeline node has no position\<close>

lemma getNodePosition_Some:
  "check ts i ty \<Longrightarrow>
     \<exists>p. getNodePosition ts j (map_option tok_position (currentToken ts i)) = Some p"
  by (simp add: check_iff currentToken_def getNodePosition_def)

lemma parseCommand_position: "parseCommand ts i = Inr (c, j) \<Longrightarrow> command_position c \<noteq> None"
  by (auto simp: parseCommand_def Let_def
           split: if_splits prod.splits option.splits sum.splits
           dest: getNodePosition_Some[where j = j])

lemma parseStatement_position:
  assumes "parseStatement ts i = Inr (Some n, j)"
  shows "(\<exists>cs. n = Pipeline cs None) \<or> statement_position n \<noteq> None"
proof -
  from parseStatement_Inr[OF assms]
  consider (cond) "check ts i IF" "parseConditional ts i = Inr (n, j)"
    | (loop) "check ts i FOR \<or> check ts i WHILE" "parseLoop ts i = Inr (n, j)"
    | (func) "check ts i FUNCTION" "parseFunction ts i = Inr (n, j)"
    | (assign) "check ts i WORD" "parseVariableAssignment ts i = Inr (n, j)"
    | (pipe) "parsePipeline ts i = Inr (n, j)"
    by blast
  then show ?thesis
  proof cases
    case cond
    from cond(2) getNodePosition_Some[OF cond(1), of j] show ?thesis
      by (auto elim!: parseConditional_Inr)
  next
    case loop
    from loop(1) have "\<exists>p. getNodePosition ts j (map_option tok_position (currentToken ts i)) = Some p"
      by (auto dest: getNodePosition_Some)
    with loop(2) show ?thesis by (auto elim!: parseLoop_Inr)
  next
    case func
    from func(2) getNodePosition_Some[OF func(1), of j] show ?thesis
      by (auto elim!: parseFunction_Inr)
  next
    case assign
    from assign(2) getNodePosition_Some[OF assign(1), of j] show ?thesis
      by (auto elim!: parseVariableAssignment_Inr)
  next
    case pipe
    then show ?thesis
      by (cases rule: parsePipeline_Inr) (auto dest: parseCommand_position)
  qed
qed

text \<open>
  C8: in every program that \<open>parse\<close> returns, every \<open>Pipeline\<close> node, at any depth, has no
  position (\<^verbatim>\<open>getNodePosition()\<close> is called without a start), while every other statement
  node and every command of a pipeline has one.
\<close>

theorem C8_pipeline_position_absent:
  "parse s = Inr prog \<Longrightarrow>
     \<forall>n\<in>set (program_statements prog).
        (\<forall>cs pp. n = Pipeline cs pp \<longrightarrow> pp = None)
        \<and> ((\<forall>cs pp. n \<noteq> Pipeline cs pp) \<longrightarrow> statement_position n \<noteq> None)
        \<and> (\<forall>c\<in>set (statement_commands n). command_position c \<noteq> None)"
proof (intro ballI conjI allI impI)
  fix n
  assume "parse s = Inr prog" and "n \<in> set (program_statements prog)"
  with program_nodes obtain i j where st: "parseStatement (tokenize s) i = Inr (Some n, j)"
    by blast
  show "pp = None" if "n = Pipeline cs pp" for cs pp
    using st that by (simp add: parseStatement_Pipeline)
  show "statement_position n \<noteq> None" if "\<forall>cs pp. n \<noteq> Pipeline cs pp"
    using parseStatement_position[OF st] that by blast
  show "command_position c \<noteq> None" if "c \<in> set (statement_commands n)" for c
    using parseStatement_commands[OF st that] parseCommand_position by blast
qed

theorem C8_pipeline_position_absent_witness:
  "parse nested_script = Inr nested_program
   \<and> Pipeline
         [Command ''ls'' [] (Some \<lparr>start = 26, end' = 30, line = 3, column = 1\<rparr>),
          Command ''wc'' [] (Some \<lparr>start = 31, end' = 34, line = 3, column = 6\<rparr>)] None
       \<in> set (program_statements nested_program)
   \<and> \<not> (\<exists>cs p. Pipeline cs (Some p) \<in> set (program_statements nested_program))
   \<and> \<not> (\<exists>k c v i b. Loop k c v i b None \<in> set (program_statements nested_program))"
  using C8_pipeline_position_absent[OF parse_nested_script]
  by (auto simp: parse_nested_script nested_program_statements)


subsection \<open>C9: the kinds of loops\<close>

lemma parseStatement_Loop_kind:
  assumes st: "parseStatement ts pos = Inr (Some (Loop k c v i b pp), p)"
    and ok: "\<forall>tok\<in>set ts. loop_keywords_ok tok"
  shows "k = ''for'' \<or> k = ''while''"
proof -
  from parseStatement_Inr[OF st]
  consider (cond) "parseConditional ts pos = Inr (Loop k c v i b pp, p)"
    | (loop) "check ts pos FOR \<or> check ts pos WHILE" "parseLoop ts pos = Inr (Loop k c v i b pp, p)"
    | (func) "parseFunction ts pos = Inr (Loop k c v i b pp, p)"
    | (assign) "parseVariableAssignment ts pos = Inr (Loop k c v i b pp, p)"
    | (pipe) "parsePipeline ts pos = Inr (Loop k c v i b pp, p)"
    by blast
  then show ?thesis
  proof cases
    case cond
    then show ?thesis by (rule parseConditional_Inr) simp
  next
    case loop
    from loop(1) have ne: "\<not> isAtEnd ts pos" and lt: "pos < length ts"
      by (auto simp: check_not_end dest: check_lt)
    from loop(2) obtain token p1 where
      "advanceP ts pos = (Some token, p1)" and "k = tok_value token"
      by (rule parseLoop_Inr) simp
    with ne have k: "k = tok_value (ts ! pos)" by (simp add: advanceP_not_end)
    from lt ok have "loop_keywords_ok (ts ! pos)" by simp
    with loop(1) k show ?thesis by (auto simp: loop_keywords_ok_def check_iff)
  next
    case func
    then show ?thesis by (rule parseFunction_Inr) simp
  next
    case assign
    then show ?thesis
      by (auto simp: parseVariableAssignment_def Let_def
               split: sum.splits prod.splits option.splits)
  next
    case pipe
    then show ?thesis by (auto simp: parsePipeline_def split: sum.splits if_splits)
  qed
qed

text \<open>
  C9: in every program that \<open>parse\<close> returns, every \<open>Loop\<close> node, at any depth, has the
  kind \<^verbatim>\<open>for\<close> or \<^verbatim>\<open>while\<close>: the kind is the text of the \<open>FOR\<close> or \<open>WHILE\<close> token that
  started the loop, and the scanner gives these types to exactly these texts.
\<close>

theorem C9_loop_kind_for_or_while:
  "parse s = Inr prog \<Longrightarrow>
     \<forall>n\<in>set (program_statements prog).
        \<forall>k c v i b pp. n = Loop k c v i b pp \<longrightarrow> k = ''for'' \<or> k = ''while''"
proof (intro ballI allI impI)
  fix n k c v i b pp
  assume "parse s = Inr prog" and "n \<in> set (program_statements prog)"
    and "n = Loop k c v i b pp"
  with program_nodes obtain i' j where
    "parseStatement (tokenize s) i' = Inr (Some (Loop k c v i b pp), j)" by blast
  then show "k = ''for'' \<or> k = ''while''"
    by (rule parseStatement_Loop_kind) (simp add: tokenize_loop_keywords)
qed

theorem C9_loop_kind_for_or_while_witness:
  "parse nested_script = Inr nested_program
   \<and> Loop ''while''
         (Some (Literal ''x'' False (Some \<lparr>start = 21, end' = 22, line = 2, column = 7\<rparr>)))
         None None
         [Pipeline
            [Command ''ls'' [] (Some \<lparr>start = 26, end' = 30, line = 3, column = 1\<rparr>),
             Command ''wc'' [] (Some \<lparr>start = 31, end' = 34, line = 3, column = 6\<rparr>)]
            None]
         (Some \<lparr>start = 15, end' = 39, line = 2, column = 1\<rparr>)
       \<in> set (program_statements nested_program)
   \<and> \<not> (\<exists>k c v i b pp. Loop k c v i b pp \<in> set (program_statements nested_program)
          \<and> k \<noteq> ''for'' \<and> k \<noteq> ''while'')"
  using C9_loop_kind_for_or_while[OF parse_nested_script]
  by (auto simp: parse_nested_script nested_program_statements)

subsection \<open>C10: blank inputs\<close>

lemma skipWhitespace_not_blank:
  "position (skipWhitespace t) < length (input t) \<Longrightarrow> \<not> isBlank (current (skipWhitespace t))"
proof (induction t rule: skipWhitespace.induct)
  case (1 t)
  show ?case
  proof (cases "position t < length (input t) \<and> isBlank (current t)")
    case True
    then have "skipWhitespace t = skipWhitespace (advance t)"
      by (subst skipWhitespace.simps) simp
    with "1.IH"[OF True] "1.prems" show ?thesis by simp
  next
    case False
    with "1.prems" skipWhitespace_stop[OF False] show ?thesis by simp
  qed
qed

definition blank_chars :: "char set" where
  "blank_chars = {CHR '' '', CHR 0x09, CHR 0x0A}"

lemma nextToken_blank_input:
  assumes "set (input t) \<subseteq> blank_chars" and "nextToken t = (Some tok, t')"
  shows "tok_type tok = NEWLINE"
proof -
  let ?u = "skipWhitespace t"
  from assms(2) have lt: "position ?u < length (input ?u)"
    by (auto simp: nextToken_def Let_def split: if_splits)
  then have "\<not> isBlank (current ?u)" using skipWhitespace_not_blank[of t] by simp
  moreover from lt assms(1) have "input ?u ! position ?u \<in> blank_chars"
    using nth_mem[of "position ?u" "input ?u"] by auto
  ultimately have nl: "input ?u ! position ?u = CHR 0x0A"
    using lt by (auto simp: isBlank_def current_def blank_chars_def)
  with assms(2) lt show ?thesis
    by (auto simp: nextToken_def Let_def readSingle_def createToken_def split: prod.splits)
qed

lemma tokenize_blank:
  assumes "set s \<subseteq> blank_chars"
  shows "(\<forall>tok\<in>set (butlast (tokenize s)). tok_type tok = NEWLINE)
         \<and> tokenize s \<noteq> [] \<and> tok_type (last (tokenize s)) = EOF"
  unfolding tokenize_def
proof (rule tokenizeLoop_invariant[where
         I = "\<lambda>t acc. input t = s \<and> (\<forall>tok\<in>set acc. tok_type tok = NEWLINE)"
         and P = "\<lambda>xs. (\<forall>tok\<in>set (butlast xs). tok_type tok = NEWLINE)
                       \<and> xs \<noteq> [] \<and> tok_type (last xs) = EOF"])
  show "input (newTokenizer s) = s \<and> (\<forall>tok\<in>set []. tok_type tok = NEWLINE)"
    by (simp add: newTokenizer_def)
next
  fix t :: Tokenizer and acc :: "Token list"
  assume "input t = s \<and> (\<forall>tok\<in>set acc. tok_type tok = NEWLINE)"
  then show "(\<forall>tok\<in>set (butlast (acc @ [createToken t EOF [] None])). tok_type tok = NEWLINE)
       \<and> acc @ [createToken t EOF [] None] \<noteq> []
       \<and> tok_type (last (acc @ [createToken t EOF [] None])) = EOF"
    by (simp add: createToken_def)
next
  fix t t' :: Tokenizer and acc :: "Token list" and r
  assume I: "input t = s \<and> (\<forall>tok\<in>set acc. tok_type tok = NEWLINE)"
    and nt: "nextToken t = (r, t')"
  from nextToken_input[OF nt] I have "input t' = s" by simp
  moreover have "\<forall>tok\<in>set (case r of Some tok \<Rightarrow> acc @ [tok] | None \<Rightarrow> acc). tok_type tok = NEWLINE"
    using I nt assms nextToken_blank_input[of t _ t'] by (auto split: option.splits)
  ultimately show "input t' = s
      \<and> (\<forall>tok\<in>set (case r of Some tok \<Rightarrow> acc @ [tok] | None \<Rightarrow> acc). tok_type tok = NEWLINE)"
    by simp
qed

lemma parseStatementsLoop_newlines:
  assumes "n < length ts" and "tok_type (ts ! n) = EOF"
    and "\<forall>k<n. tok_type (ts ! k) = NEWLINE"
  shows "pos \<le> n \<Longrightarrow> parseStatementsLoop ts pos acc = Inr (acc, n)"
proof (induction "n - pos" arbitrary: pos)
  case 0
  with assms have "isAtEnd ts pos" by (simp add: isAtEnd_def check_iff)
  from parseStatementsLoop_stop[OF this] 0 show ?case by simp
next
  case (Suc m)
  then have lt: "pos < n" by simp
  with assms have nl: "check ts pos NEWLINE" and ne: "\<not> isAtEnd ts pos"
    by (auto simp: isAtEnd_def check_iff)
  from Suc.hyps(1)[of "pos + 1"] Suc.hyps(2) lt
  have "parseStatementsLoop ts (pos + 1) acc = Inr (acc, n)" by simp
  with parseStatementsLoop_newline[OF ne nl] show ?case by simp
qed

text \<open>
  C10: for the empty input, and for every input of spaces, tabs and newlines only,
  \<open>parse\<close> returns a program with no statement.
\<close>

theorem C10_blank_input_empty_program:
  "parse [] = Inr (Program [] None)
   \<and> (set s \<subseteq> {CHR '' '', CHR 0x09, CHR 0x0A} \<longrightarrow> parse s = Inr (Program [] None))"
proof -
  have blank: "parse s = Inr (Program [] None)" if "set s \<subseteq> blank_chars" for s
  proof -
    let ?ts = "tokenize s"
    let ?n = "length ?ts - 1"
    from tokenize_blank[OF that] have
      nls: "\<forall>tok\<in>set (butlast ?ts). tok_type tok = NEWLINE" and
      ne: "?ts \<noteq> []" and eof: "tok_type (last ?ts) = EOF" by simp_all
    from ne have n: "?n < length ?ts" by simp
    from eof ne have e: "tok_type (?ts ! ?n) = EOF" by (simp add: last_conv_nth)
    have "\<forall>k<?n. tok_type (?ts ! k) = NEWLINE"
    proof (intro allI impI)
      fix k assume k: "k < ?n"
      then have "butlast ?ts ! k \<in> set (butlast ?ts)" by simp
      with nls k show "tok_type (?ts ! k) = NEWLINE" by (simp add: nth_butlast)
    qed
    from parseStatementsLoop_newlines[OF n e this, of 0 "[]"] show ?thesis
      by (simp add: parse_def parseStatements_def getNodePosition_def)
  qed
  from blank[of "[]"] blank[of s] show ?thesis by (simp add: blank_chars_def)
qed

theorem C10_blank_input_empty_program_witness:
  "set ([CHR '' '', CHR 0x0A, CHR 0x09, CHR 0x0A]) \<subseteq> {CHR '' '', CHR 0x09, CHR 0x0A}
   \<and> parse [CHR '' '', CHR 0x0A, CHR 0x09, CHR 0x0A] = Inr (Program [] None)"
  using C10_blank_input_empty_program[of "[CHR '' '', CHR 0x0A, CHR 0x09, CHR 0x0A]"]
  by simp

end
